theory Spec2Isabelle
  imports Main "HOL-Library.Word" "HOL-Library.Sublist" "HOL-Library.Multiset"
begin

section \<open>JavaScript strings\<close>

text \<open>
  A JavaScript string is a sequence of UTF-16 code units. The regular expressions of
  \<^verbatim>\<open>index.js\<close> that carry the \<^verbatim>\<open>u\<close> flag have only ASCII literals and the class
  \<^verbatim>\<open>[^\w\.]+\<close>; on both, matching code point by code point and matching code unit
  by code unit replace the same parts of the string (an ASCII literal never starts inside a
  surrogate pair, and both halves of a pair lie outside \<^verbatim>\<open>[\w.]\<close>, so a pair always
  belongs to one run).
\<close>

type_synonym code_unit = "16 word"
type_synonym jsstring = "code_unit list"

definition cu :: "char \<Rightarrow> code_unit" where
  "cu c = of_char c"

definition js :: "string \<Rightarrow> jsstring" where
  "js s = map cu s"

text \<open>\<^verbatim>\<open>String.prototype.replace\<close> with a global regular expression that is an
  alternation of literals: at each position the alternatives are tried in order, the first
  that matches is replaced, and the scan goes on after the match. No literal of
  \<^verbatim>\<open>index.js\<close> is empty.\<close>

fun match_first :: "jsstring list \<Rightarrow> jsstring \<Rightarrow> jsstring option" where
  "match_first [] s = None"
| "match_first (p # ps) s = (if prefix p s then Some p else match_first ps s)"

fun replace_all :: "jsstring list \<Rightarrow> jsstring \<Rightarrow> jsstring \<Rightarrow> jsstring" where
  "replace_all pats rep [] = []"
| "replace_all pats rep (c # cs) =
     (case match_first pats (c # cs) of
        Some p \<Rightarrow> rep @ replace_all pats rep (drop (length p - 1) cs)
      | None \<Rightarrow> c # replace_all pats rep cs)"

text \<open>\<^verbatim>\<open>String.prototype.replace\<close> with a string pattern: only the first occurrence
  is replaced.\<close>

fun replace_first :: "jsstring \<Rightarrow> jsstring \<Rightarrow> jsstring \<Rightarrow> jsstring" where
  "replace_first pat rep [] = (if pat = [] then rep else [])"
| "replace_first pat rep (c # cs) =
     (if prefix pat (c # cs) then rep @ drop (length pat) (c # cs)
      else c # replace_first pat rep cs)"

text \<open>\<^verbatim>\<open>Array.prototype.join\<close>.\<close>

fun join :: "jsstring \<Rightarrow> jsstring list \<Rightarrow> jsstring" where
  "join sep [] = []"
| "join sep [x] = x"
| "join sep (x # y # ys) = x @ sep @ join sep (y # ys)"

text \<open>The decimal digits of a number, as string concatenation converts
  \<^verbatim>\<open>i.charCodeAt(0)\<close>.\<close>

fun decimal :: "nat \<Rightarrow> jsstring" where
  "decimal n = (if n < 10 then [cu CHR ''0'' + of_nat n]
                else decimal (n div 10) @ [cu CHR ''0'' + of_nat (n mod 10)])"

declare decimal.simps [simp del]

section \<open>The string normalizers\<close>

text \<open>\<^verbatim>\<open>formatStringForName\<close>, lines 13 to 22.\<close>

definition formatStringForName :: "jsstring \<Rightarrow> jsstring \<Rightarrow> jsstring" where
  "formatStringForName content type =
     (let name = replace_all [js ''module.exports.'', js ''.prototype'', js ''()''] [] content
      in if type = js ''callback'' then js ''{Function} '' @ name else name)"

text \<open>\<^verbatim>\<open>formatStringForParam\<close>, lines 33 to 36.\<close>

definition formatStringForParam :: "jsstring \<Rightarrow> jsstring" where
  "formatStringForParam content = replace_all [js ''['', js '']''] [] content"

text \<open>
  \<^verbatim>\<open>String.prototype.toLowerCase\<close>, as far as \<^verbatim>\<open>formatStringForUID\<close> can
  observe it. The ASCII capitals map to their small letters. Two code units outside ASCII
  have a lower case inside it: the Kelvin sign U+212A maps to \<^verbatim>\<open>k\<close>, and U+0130 maps to
  \<^verbatim>\<open>i\<close> followed by the combining dot U+0307. Every other code unit outside ASCII
  maps to one or more code units outside ASCII; the model leaves it as it is, since the
  replacement that follows turns any run of them into one hyphen.
\<close>

definition lower_unit :: "code_unit \<Rightarrow> jsstring" where
  "lower_unit c =
     (if cu CHR ''A'' \<le> c \<and> c \<le> cu CHR ''Z'' then [c + 0x20]
      else if c = 0x212A then [cu CHR ''k'']
      else if c = 0x130 then [cu CHR ''i'', 0x307]
      else [c])"

definition toLowerCase :: "jsstring \<Rightarrow> jsstring" where
  "toLowerCase s = concat (map lower_unit s)"

text \<open>The class \<^verbatim>\<open>[\w\.]\<close>: letters, digits, underscore and period.\<close>

definition word_or_period :: "code_unit \<Rightarrow> bool" where
  "word_or_period c \<longleftrightarrow>
     (cu CHR ''a'' \<le> c \<and> c \<le> cu CHR ''z'') \<or> (cu CHR ''A'' \<le> c \<and> c \<le> cu CHR ''Z'') \<or>
     (cu CHR ''0'' \<le> c \<and> c \<le> cu CHR ''9'') \<or> c = cu CHR ''_'' \<or> c = cu CHR ''.''"

text \<open>A global replace of every maximal run of a character class, as
  \<^verbatim>\<open>.replace(/[^\w\.]+/gu, '-')\<close>.\<close>

function replace_runs :: "(code_unit \<Rightarrow> bool) \<Rightarrow> jsstring \<Rightarrow> jsstring \<Rightarrow> jsstring" where
  "replace_runs P rep [] = []"
| "replace_runs P rep (c # cs) =
     (if P c then rep @ replace_runs P rep (dropWhile P cs)
      else c # replace_runs P rep cs)"
  by pat_completeness auto
termination
  by (relation "measure (\<lambda>(P, rep, s). length s)")
     (auto simp: less_Suc_eq_le length_dropWhile_le)

text \<open>\<^verbatim>\<open>.replace(/^-|-$/gu, '')\<close>: a hyphen at the start is removed, and then a
  hyphen at the end of what is left.\<close>

definition strip_hyphens :: "jsstring \<Rightarrow> jsstring" where
  "strip_hyphens s =
     (let s1 = (case s of c # cs \<Rightarrow> if c = cu CHR ''-'' then cs else s | [] \<Rightarrow> [])
      in if s1 \<noteq> [] \<and> last s1 = cu CHR ''-'' then butlast s1 else s1)"

text \<open>\<^verbatim>\<open>formatStringForUID\<close>, lines 71 to 76.\<close>

definition formatStringForUID :: "jsstring \<Rightarrow> jsstring" where
  "formatStringForUID content =
     strip_hyphens
       (replace_runs (\<lambda>c. \<not> word_or_period c) (js ''-'') (toLowerCase content))"

section \<open>The object that holds the linkable names\<close>

text \<open>
  \<^verbatim>\<open>linkableObjects\<close> is created by the literal \<^verbatim>\<open>{}\<close> (line 98), so it is an
  ordinary object: its own properties are the names that line 117 assigns, and a read of
  any other name goes on to \<^verbatim>\<open>Object.prototype\<close>. The model keeps the own
  properties as a map and the inherited members as a table of their names, each with the
  text that a template literal prints for it (as V8 prints a built-in function).
\<close>

type_synonym linkable = "jsstring \<rightharpoonup> jsstring"

datatype jsvalue = Undefined | Str jsstring | Inherited jsstring

definition object_prototype :: "jsstring \<Rightarrow> jsstring option" where
  "object_prototype k =
     (if k = js ''__proto__'' then Some (js ''[object Object]'')
      else if k = js ''constructor'' then Some (js ''function Object() { [native code] }'')
      else if k \<in> set (map js [''toString'', ''toLocaleString'', ''valueOf'',
                ''hasOwnProperty'', ''isPrototypeOf'', ''propertyIsEnumerable'',
                ''__defineGetter__'', ''__defineSetter__'', ''__lookupGetter__'',
                ''__lookupSetter__''])
        then Some (js ''function '' @ k @ js ''() { [native code] }'')
      else None)"

text \<open>\<^verbatim>\<open>linkableObjects[string]\<close>, read.\<close>

definition get_property :: "linkable \<Rightarrow> jsstring \<Rightarrow> jsvalue" where
  "get_property obj k =
     (case obj k of
        Some v \<Rightarrow> Str v
      | None \<Rightarrow> (case object_prototype k of Some t \<Rightarrow> Inherited t | None \<Rightarrow> Undefined))"

text \<open>\<^verbatim>\<open>linkableObjects[name] = uid\<close>. An assignment to \<^verbatim>\<open>__proto__\<close> calls the
  inherited setter, which ignores a value that is a string and creates no property.\<close>

definition set_property :: "linkable \<Rightarrow> jsstring \<Rightarrow> jsstring \<Rightarrow> linkable" where
  "set_property obj k v = (if k = js ''__proto__'' then obj else obj(k \<mapsto> v))"

text \<open>The condition of an \<^verbatim>\<open>if\<close>: the empty string and \<^verbatim>\<open>undefined\<close> are
  false, a function or an object is true.\<close>

fun truthy :: "jsvalue \<Rightarrow> bool" where
  "truthy Undefined = False"
| "truthy (Str v) = (v \<noteq> [])"
| "truthy (Inherited t) = True"

text \<open>The value inside a template literal.\<close>

fun to_string :: "jsvalue \<Rightarrow> jsstring" where
  "to_string Undefined = js ''undefined''"
| "to_string (Str v) = v"
| "to_string (Inherited t) = t"

section \<open>The link formatter\<close>

text \<open>
  The class of line 55 holds the code units U+00A0 to U+9999 and \<^verbatim>\<open><\<close>,
  \<^verbatim>\<open>>\<close>, \<^verbatim>\<open>&\<close>. It is matched with the flags \<^verbatim>\<open>gim\<close>, without
  \<^verbatim>\<open>u\<close>: code unit by code unit, ignoring case. A code unit of the class matches.
  Ignoring case adds the code units whose canonical form (the upper case, in the tables of
  the engine) is the canonical form of a code unit of the class. Such a code unit is never
  in ASCII (the upper case of an ASCII code unit is ASCII, and the canonical form of a code
  unit outside ASCII is never ASCII) and never among the controls U+0080 to U+009F (they
  have no case), so it lies above U+9999. Which ones there are depends on the Unicode
  version of the engine: the model takes them as the parameter \<open>ignoreCase\<close>, read only
  above U+9999.
\<close>

definition escaped :: "(code_unit \<Rightarrow> bool) \<Rightarrow> code_unit \<Rightarrow> bool" where
  "escaped ignoreCase i \<longleftrightarrow>
     (0xA0 \<le> i \<and> i \<le> 0x9999) \<or> i = cu CHR ''<'' \<or> i = cu CHR ''>'' \<or> i = cu CHR ''&'' \<or>
     (0x9999 < i \<and> ignoreCase i)"

definition escape_unit :: "(code_unit \<Rightarrow> bool) \<Rightarrow> code_unit \<Rightarrow> jsstring" where
  "escape_unit ignoreCase i =
     (if escaped ignoreCase i then js ''&#'' @ decimal (unat i) @ js '';'' else [i])"

text \<open>\<^verbatim>\<open>formatStringWithLinkable\<close>, lines 48 to 60.\<close>

definition formatStringWithLinkable ::
  "(code_unit \<Rightarrow> bool) \<Rightarrow> jsstring \<Rightarrow> linkable \<Rightarrow> jsstring" where
  "formatStringWithLinkable ignoreCase content linkableObjects =
     (let string = replace_all [js ''['', js '']''] [] content
      in if truthy (get_property linkableObjects string)
         then js ''<a href=\"#'' @ to_string (get_property linkableObjects string) @
              js ''\">'' @ string @ js ''</a>''
         else concat (map (escape_unit ignoreCase) string))"

section \<open>The records\<close>

text \<open>A tag and a comment as \<^verbatim>\<open>dox.parseComments\<close> returns them, with the fields
  that \<^verbatim>\<open>index.js\<close> reads.\<close>

record tag =
  tag_type :: jsstring
  tag_string :: jsstring
  tag_name :: jsstring
  tag_optional :: bool
  tag_types :: "jsstring list"
  tag_description :: jsstring

record code_context =
  ctx_type :: jsstring
  ctx_string :: jsstring

record comment =
  description_full :: jsstring
  tags :: "tag list"
  ctx :: "code_context option"
  isPrivate :: bool
  ignore :: bool
  line :: int

text \<open>The object \<^verbatim>\<open>params\<close> that the callback of \<^verbatim>\<open>map\<close> returns. The
  properties \<^verbatim>\<open>uid\<close>, \<^verbatim>\<open>type\<close> and \<^verbatim>\<open>name\<close> are \<open>None\<close> where the
  code never assigns them; \<^verbatim>\<open>notFunction\<close> and \<^verbatim>\<open>toBottom\<close> are either absent
  or \<^verbatim>\<open>true\<close>, and \<open>False\<close> stands for absent.\<close>

record param_doc =
  pd_name :: jsstring
  pd_isOptional :: bool
  pd_types :: "jsstring list"
  pd_description :: jsstring

record return_doc =
  rd_types :: "jsstring list"
  rd_description :: jsstring

record tag_groups =
  tg_example :: "jsstring list"
  tg_param :: "param_doc list"
  tg_property :: "param_doc list"
  tg_return :: "return_doc list"

record entity =
  e_isPrivate :: bool
  e_description :: jsstring
  e_empty :: bool
  e_line :: int
  e_params :: jsstring
  e_tags :: tag_groups
  e_uid :: "jsstring option"
  e_type :: "jsstring option"
  e_name :: "jsstring option"
  e_notFunction :: bool
  e_toBottom :: bool

section \<open>The parser\<close>

text \<open>\<^verbatim>\<open>isCallbackOrTypedef\<close>, line 85.\<close>

definition isCallbackOrTypedef :: "comment \<Rightarrow> bool" where
  "isCallbackOrTypedef method =
     (case tags method of
        [] \<Rightarrow> False
      | t # _ \<Rightarrow> tag_type t = js ''typedef'' \<or> tag_type t = js ''callback'')"

text \<open>\<^verbatim>\<open>.replace(/^\{[a-z]*\}\ /i, '')\<close> of line 115. Without the \<^verbatim>\<open>u\<close> flag,
  ignoring case adds only the ASCII capitals to \<^verbatim>\<open>[a-z]\<close>.\<close>

definition ascii_letter :: "code_unit \<Rightarrow> bool" where
  "ascii_letter c \<longleftrightarrow>
     (cu CHR ''a'' \<le> c \<and> c \<le> cu CHR ''z'') \<or> (cu CHR ''A'' \<le> c \<and> c \<le> cu CHR ''Z'')"

definition strip_type_marker :: "jsstring \<Rightarrow> jsstring" where
  "strip_type_marker s =
     (case s of
        [] \<Rightarrow> []
      | c # cs \<Rightarrow>
          if c = cu CHR ''{'' then
            (case dropWhile ascii_letter cs of
               a # b # rest \<Rightarrow> if a = cu CHR ''}'' \<and> b = cu CHR '' '' then rest else s
             | _ \<Rightarrow> s)
          else s)"

text \<open>The name and the identifier that lines 114 and 116 compute from the first tag.\<close>

definition linkable_name :: "tag \<Rightarrow> jsstring" where
  "linkable_name t = strip_type_marker (formatStringForName (tag_string t) (tag_type t))"

definition linkable_uid :: "jsstring \<Rightarrow> tag \<Rightarrow> jsstring" where
  "linkable_uid filename t = formatStringForUID (filename @ js ''-'' @ tag_string t)"

text \<open>The callback of \<^verbatim>\<open>forEach\<close>, lines 108 to 119. The \<^verbatim>\<open>console.log\<close> for one
  fixed file name prints and changes nothing.\<close>

definition register :: "jsstring \<Rightarrow> linkable \<Rightarrow> comment \<Rightarrow> linkable" where
  "register filename linkableObjects method =
     (if isCallbackOrTypedef method then
        (case tags method of
           t # _ \<Rightarrow>
             set_property linkableObjects (linkable_name t) (linkable_uid filename t)
         | [] \<Rightarrow> linkableObjects)
      else linkableObjects)"

definition build_linkable :: "jsstring \<Rightarrow> comment list \<Rightarrow> linkable" where
  "build_linkable filename methods = foldl (register filename) Map.empty methods"

text \<open>The string \<^verbatim>\<open>params\<close>, lines 128 to 143.\<close>

definition param_names :: "comment \<Rightarrow> jsstring list" where
  "param_names method =
     map (\<lambda>tag. if tag_optional tag
                 then js ''['' @ formatStringForParam (tag_name tag) @ js '']''
                 else formatStringForParam (tag_name tag))
       (filter (\<lambda>tag. tag_type tag = js ''param'' \<and> cu CHR ''.'' \<notin> set (tag_name tag))
          (tags method))"

definition params_string :: "comment \<Rightarrow> jsstring" where
  "params_string method =
     replace_first (js '', ['') (js ''[, '')
       (replace_all [js ''], [''] (js '', '') (join (js '', '') (param_names method)))"

text \<open>The tag groups, lines 144 to 170.\<close>

definition param_doc_of :: "(code_unit \<Rightarrow> bool) \<Rightarrow> linkable \<Rightarrow> tag \<Rightarrow> param_doc" where
  "param_doc_of ignoreCase linkableObjects tag =
     \<lparr>pd_name = formatStringForParam (tag_name tag),
      pd_isOptional = tag_optional tag,
      pd_types = map (\<lambda>type. formatStringWithLinkable ignoreCase type linkableObjects) (tag_types tag),
      pd_description = tag_description tag\<rparr>"

definition return_doc_of :: "(code_unit \<Rightarrow> bool) \<Rightarrow> linkable \<Rightarrow> tag \<Rightarrow> return_doc" where
  "return_doc_of ignoreCase linkableObjects tag =
     \<lparr>rd_types = map (\<lambda>type. formatStringWithLinkable ignoreCase type linkableObjects) (tag_types tag),
      rd_description = tag_description tag\<rparr>"

definition tag_groups_of :: "(code_unit \<Rightarrow> bool) \<Rightarrow> linkable \<Rightarrow> comment \<Rightarrow> tag_groups" where
  "tag_groups_of ignoreCase linkableObjects method =
     \<lparr>tg_example = map tag_string (filter (\<lambda>tag. tag_type tag = js ''example'') (tags method)),
      tg_param = map (param_doc_of ignoreCase linkableObjects)
                   (filter (\<lambda>tag. tag_type tag = js ''param'') (tags method)),
      tg_property = map (param_doc_of ignoreCase linkableObjects)
                      (filter (\<lambda>tag. tag_type tag = js ''property'') (tags method)),
      tg_return = map (return_doc_of ignoreCase linkableObjects)
                    (filter (\<lambda>tag. tag_type tag = js ''return'' \<or> tag_type tag = js ''returns'')
                       (tags method))\<rparr>"

text \<open>
  The callback of \<^verbatim>\<open>map\<close>, lines 122 to 201. Its last branch (line 196) assigns
  \<^verbatim>\<open>method.empty = true\<close>: that is a property of the input record, which nothing reads
  afterwards, and the object \<^verbatim>\<open>params\<close> is returned as it was built.
\<close>

definition build_entity ::
  "(code_unit \<Rightarrow> bool) \<Rightarrow> jsstring \<Rightarrow> linkable \<Rightarrow> comment \<Rightarrow> entity" where
  "build_entity ignoreCase filename linkableObjects method =
     (let params =
        \<lparr>e_isPrivate = isPrivate method,
         e_description = description_full method,
         e_empty = (description_full method = [] \<and> tags method = []),
         e_line = line method,
         e_params = params_string method,
         e_tags = tag_groups_of ignoreCase linkableObjects method,
         e_uid = None, e_type = None, e_name = None,
         e_notFunction = False, e_toBottom = False\<rparr>
      in case ctx method of
           Some c \<Rightarrow>
             params\<lparr>e_uid := Some (formatStringForUID (filename @ js ''-'' @ ctx_string c)),
                    e_type := Some (ctx_type c),
                    e_name := Some (formatStringForName
                      (case tags method of
                         t # _ \<Rightarrow>
                           if tag_type t = js ''memberof''
                           then replace_first (js ''#'') [] (tag_string t) @ js ''.'' @ ctx_string c
                           else ctx_string c
                       | [] \<Rightarrow> ctx_string c) []),
                    e_notFunction := (ctx_type c = js ''declaration'')\<rparr>
         | None \<Rightarrow>
             if isCallbackOrTypedef method then
               (case tags method of
                  t # _ \<Rightarrow>
                    params\<lparr>e_uid := Some (formatStringForUID (filename @ js ''-'' @ tag_string t)),
                           e_type := Some (tag_type t),
                           e_name := Some (formatStringForName (tag_string t) (tag_type t)),
                           e_toBottom := True,
                           e_notFunction := (tag_type t = js ''typedef''),
                           e_params := (if tag_type t = js ''typedef'' then []
                                        else params_string method)\<rparr>
                | [] \<Rightarrow> params)
             else params)"

text \<open>Line 196 again: the records on which the callback sets \<^verbatim>\<open>method.empty\<close>.\<close>

definition marks_method_empty :: "comment \<Rightarrow> bool" where
  "marks_method_empty method \<longleftrightarrow> ctx method = None \<and> \<not> isCallbackOrTypedef method"

text \<open>The comparison of two strings with \<^verbatim>\<open>>\<close>: by code units, a proper prefix
  is smaller.\<close>

fun js_gt :: "jsstring \<Rightarrow> jsstring \<Rightarrow> bool" where
  "js_gt [] t = False"
| "js_gt (a # s) [] = True"
| "js_gt (a # s) (b # t) = (if a = b then js_gt s t else b < a)"

text \<open>The comparator of \<^verbatim>\<open>sort\<close>, lines 203 to 212, with the number that the
  engine makes of its result: \<^verbatim>\<open>true\<close> is 1 and \<^verbatim>\<open>false\<close> is 0. A comparison with
  \<^verbatim>\<open>undefined\<close> is false.\<close>

definition compare_entities :: "entity \<Rightarrow> entity \<Rightarrow> int" where
  "compare_entities a b =
     (if e_toBottom a \<and> e_toBottom b then
        (case (e_type a, e_type b) of
           (Some s, Some t) \<Rightarrow> if js_gt s t then 1 else 0
         | _ \<Rightarrow> 0)
      else if e_toBottom a then 1
      else if e_toBottom b then - 1
      else e_line a - e_line b)"

text \<open>
  \<^verbatim>\<open>Array.prototype.sort\<close> belongs to the engine, not to \<^verbatim>\<open>index.js\<close>. The
  comparator of lines 203 to 212 is not a consistent one: for a typedef and a callback it
  answers 1 when the typedef comes first and 0 when the callback comes first. For such a
  comparator the language leaves the order of the result to the engine. The parser
  therefore takes the sort as a parameter \<open>engineSort\<close>, called with the comparator and the
  array.

  Two properties of a sort are named. The first, \<open>keeps_elements\<close>: the result holds the
  elements of the array, each as often as before; the language requires it of every
  engine and every comparator. The second, \<open>sorts_by_answers\<close>: whenever every answer of
  the comparator is true of some transitive relation \<open>before\<close> (an answer not above 0 is
  given only where the first argument may stand before the second, an answer not below 0
  only where the second may stand before the first), the result is sorted by that
  relation. For a consistent comparator and its own order this is what the language
  requires. Beyond that it is the property of a sort that places an element by nothing
  but the answers it receives, as the two sorts of V8 below do.
\<close>

definition keeps_elements :: "(('a \<Rightarrow> 'a \<Rightarrow> int) \<Rightarrow> 'a list \<Rightarrow> 'a list) \<Rightarrow> bool" where
  "keeps_elements engineSort \<longleftrightarrow> (\<forall>comparefn xs. mset (engineSort comparefn xs) = mset xs)"

definition answers_true :: "('a \<Rightarrow> 'a \<Rightarrow> int) \<Rightarrow> ('a \<Rightarrow> 'a \<Rightarrow> bool) \<Rightarrow> bool" where
  "answers_true comparefn before \<longleftrightarrow>
     (\<forall>a b. (comparefn a b \<le> 0 \<longrightarrow> before a b) \<and> (0 \<le> comparefn a b \<longrightarrow> before b a))"

definition sorts_by_answers :: "(('a \<Rightarrow> 'a \<Rightarrow> int) \<Rightarrow> 'a list \<Rightarrow> 'a list) \<Rightarrow> bool" where
  "sorts_by_answers engineSort \<longleftrightarrow>
     (\<forall>comparefn before xs. transp before \<and> answers_true comparefn before \<longrightarrow>
        sorted_wrt before (engineSort comparefn xs) \<and>
        mset (engineSort comparefn xs) = mset xs)"

text \<open>
  The sort of V8 since version 7.0 (Node 11 and later), on an array of fewer than 64
  elements. \<^verbatim>\<open>CountAndMakeRun\<close> takes the run at the start of the array: it compares
  the second element with the first; when the answer is below 0 the run goes on while each
  element compared with the one before it answers below 0, and is then reversed; otherwise
  it goes on while that answer is not below 0. \<^verbatim>\<open>BinaryInsertionSort\<close> then takes
  the remaining elements in turn and puts each at the place that a binary search in the part
  already sorted finds, going left when the element compared with the middle answers below
  0 and right otherwise. An array of fewer than 2 elements is returned as it is. (On 64
  elements or more V8 sorts pieces in this way and merges them; the merge is not modelled,
  and no evaluation below has that many elements.)
\<close>

fun extend_run :: "('a \<Rightarrow> 'a \<Rightarrow> int) \<Rightarrow> bool \<Rightarrow> 'a \<Rightarrow> 'a list \<Rightarrow> 'a list \<times> 'a list" where
  "extend_run comparefn isDescending previousElement [] = ([], [])"
| "extend_run comparefn isDescending previousElement (currentElement # rest) =
     (let order = comparefn currentElement previousElement
      in if (if isDescending then 0 \<le> order else order < 0)
         then ([], currentElement # rest)
         else (case extend_run comparefn isDescending currentElement rest of
                 (run, rest') \<Rightarrow> (currentElement # run, rest')))"

definition count_and_make_run :: "('a \<Rightarrow> 'a \<Rightarrow> int) \<Rightarrow> 'a list \<Rightarrow> 'a list \<times> 'a list" where
  "count_and_make_run comparefn workArray =
     (case workArray of
        elementHigh # elementLow # rest \<Rightarrow>
          (let isDescending = comparefn elementLow elementHigh < 0
           in case extend_run comparefn isDescending elementLow rest of
                (run, rest') \<Rightarrow>
                  (if isDescending then rev (elementHigh # elementLow # run)
                   else elementHigh # elementLow # run, rest'))
      | _ \<Rightarrow> (workArray, []))"

text \<open>The search reads \<open>workArray ! mid\<close> only with \<open>mid\<close> below \<open>right\<close>, and it is
  called with \<open>right\<close> the length of the part already sorted.\<close>

function binary_search :: "('a \<Rightarrow> 'a \<Rightarrow> int) \<Rightarrow> 'a \<Rightarrow> 'a list \<Rightarrow> nat \<Rightarrow> nat \<Rightarrow> nat" where
  "binary_search comparefn pivot workArray left right =
     (if left < right then
        (let mid = left + (right - left) div 2
         in if comparefn pivot (workArray ! mid) < 0
            then binary_search comparefn pivot workArray left mid
            else binary_search comparefn pivot workArray (mid + 1) right)
      else left)"
  by pat_completeness auto
termination
  by (relation "measure (\<lambda>(comparefn, pivot, workArray, left, right). right - left)") auto

declare binary_search.simps [simp del]

definition binary_insert :: "('a \<Rightarrow> 'a \<Rightarrow> int) \<Rightarrow> 'a list \<Rightarrow> 'a \<Rightarrow> 'a list" where
  "binary_insert comparefn run pivot =
     (let left = binary_search comparefn pivot run 0 (length run)
      in take left run @ pivot # drop left run)"

definition binary_insertion_sort :: "('a \<Rightarrow> 'a \<Rightarrow> int) \<Rightarrow> 'a list \<Rightarrow> 'a list" where
  "binary_insertion_sort comparefn workArray =
     (if length workArray < 2 then workArray
      else case count_and_make_run comparefn workArray of
             (run, rest) \<Rightarrow> foldl (binary_insert comparefn) run rest)"

text \<open>
  The sort of V8 before version 7.0, on an array of up to 10 elements: each element in
  turn moves to the left past every element for which the comparator, called with that
  element first, answers above 0. The part already sorted is kept with its last element
  first.
\<close>

fun insert_left :: "('a \<Rightarrow> 'a \<Rightarrow> int) \<Rightarrow> 'a \<Rightarrow> 'a list \<Rightarrow> 'a list" where
  "insert_left comparefn element [] = [element]"
| "insert_left comparefn element (tmp # placed) =
     (if comparefn tmp element > 0 then tmp # insert_left comparefn element placed
      else element # tmp # placed)"

definition insertion_sort :: "('a \<Rightarrow> 'a \<Rightarrow> int) \<Rightarrow> 'a list \<Rightarrow> 'a list" where
  "insertion_sort comparefn xs =
     rev (foldl (\<lambda>placed element. insert_left comparefn element placed) [] xs)"

text \<open>
  \<^verbatim>\<open>parser\<close>, lines 96 to 213, from the records that \<^verbatim>\<open>dox.parseComments\<close>
  returned for the content of the file, with the sort of the engine.
\<close>

definition entities ::
  "(code_unit \<Rightarrow> bool) \<Rightarrow> jsstring \<Rightarrow> comment list \<Rightarrow> entity list" where
  "entities ignoreCase filename comments =
     (let methods = filter (\<lambda>method. \<not> ignore method) comments;
          linkableObjects = build_linkable filename methods
      in map (build_entity ignoreCase filename linkableObjects) methods)"

definition parser ::
  "((entity \<Rightarrow> entity \<Rightarrow> int) \<Rightarrow> entity list \<Rightarrow> entity list) \<Rightarrow>
   (code_unit \<Rightarrow> bool) \<Rightarrow> jsstring \<Rightarrow> comment list \<Rightarrow> entity list" where
  "parser engineSort ignoreCase filename comments =
     engineSort compare_entities
       (filter (\<lambda>method. \<not> e_empty method) (entities ignoreCase filename comments))"

section \<open>Predicates of the statements\<close>

text \<open>The form of an identifier: small letters, digits, underscores, periods and hyphens
  only, no two hyphens in a row, no hyphen at either end.\<close>

definition slug_unit :: "code_unit \<Rightarrow> bool" where
  "slug_unit c \<longleftrightarrow>
     (cu CHR ''a'' \<le> c \<and> c \<le> cu CHR ''z'') \<or> (cu CHR ''0'' \<le> c \<and> c \<le> cu CHR ''9'') \<or>
     c = cu CHR ''_'' \<or> c = cu CHR ''.''"

fun hyphens_single :: "jsstring \<Rightarrow> bool" where
  "hyphens_single (a # b # s) = (\<not> (a = cu CHR ''-'' \<and> b = cu CHR ''-'') \<and> hyphens_single (b # s))"
| "hyphens_single s = True"

definition is_slug :: "jsstring \<Rightarrow> bool" where
  "is_slug s \<longleftrightarrow>
     list_all (\<lambda>c. slug_unit c \<or> c = cu CHR ''-'') s \<and> hyphens_single s \<and>
     \<not> prefix [cu CHR ''-''] s \<and> \<not> suffix [cu CHR ''-''] s"

text \<open>One of the patterns occurs somewhere in the string.\<close>

fun occurs :: "jsstring list \<Rightarrow> jsstring \<Rightarrow> bool" where
  "occurs pats [] = False"
| "occurs pats (c # cs) = (match_first pats (c # cs) \<noteq> None \<or> occurs pats cs)"

text \<open>The value of \<open>ignoreCase\<close> for an engine whose case tables pair no code unit above
  U+9999 with one of the class. The code units above U+9999 in the examples below are a
  Hangul syllable and the two surrogates of an emoji, which have no case in any engine, so
  the results of the examples are the same for every engine.\<close>

definition no_pairs :: "code_unit \<Rightarrow> bool" where
  "no_pairs c = False"

text \<open>The order of the output: \<open>a\<close> may stand before \<open>b\<close>.\<close>

definition placed_before :: "entity \<Rightarrow> entity \<Rightarrow> bool" where
  "placed_before a b \<longleftrightarrow>
     (if e_toBottom a then e_toBottom b else e_toBottom b \<or> e_line a \<le> e_line b)"

text \<open>Records for the examples: a tag without a description, and a comment that is
  neither private nor ignored.\<close>

definition a_tag :: "string \<Rightarrow> string \<Rightarrow> string \<Rightarrow> bool \<Rightarrow> string list \<Rightarrow> tag" where
  "a_tag type string name optional types =
     \<lparr>tag_type = js type, tag_string = js string, tag_name = js name, tag_optional = optional,
      tag_types = map js types, tag_description = []\<rparr>"

definition a_comment :: "string \<Rightarrow> tag list \<Rightarrow> (string \<times> string) option \<Rightarrow> int \<Rightarrow> comment" where
  "a_comment full ts c n =
     \<lparr>description_full = js full, tags = ts,
      ctx = map_option (\<lambda>(t, s). \<lparr>ctx_type = js t, ctx_string = js s\<rparr>) c,
      isPrivate = False, ignore = False, line = n\<rparr>"

text \<open>Three methods on the lines 10, 3 and 7.\<close>

definition three_methods :: "comment list" where
  "three_methods =
     [a_comment ''first'' [] (Some (''method'', ''a'')) 10,
      a_comment ''second'' [] (Some (''method'', ''b'')) 3,
      a_comment ''third'' [] (Some (''method'', ''c'')) 7]"

text \<open>A comment that stands before no code and declares no callback or typedef.\<close>

definition stray_comment :: comment where
  "stray_comment = a_comment ''Helpers for the tests.'' [] None 1"

text \<open>The record of the first example scenario of the specification.\<close>

definition example_method :: comment where
  "example_method =
     a_comment ''does X'' [a_tag ''param'' ''{String} a'' ''a'' False [''String'']]
       (Some (''method'', ''foo'')) 1"

text \<open>A function with the parameters \<^verbatim>\<open>a\<close>, \<^verbatim>\<open>[b]\<close>, \<^verbatim>\<open>c\<close>, \<^verbatim>\<open>[d]\<close>, and one
  with a dotted parameter name.\<close>

definition four_params :: comment where
  "four_params =
     a_comment ''f''
       [a_tag ''param'' [] ''a'' False [], a_tag ''param'' [] ''[b]'' True [],
        a_tag ''param'' [] ''c'' False [], a_tag ''param'' [] ''[d]'' True []]
       (Some (''function'', ''f'')) 1"

definition dotted_params :: comment where
  "dotted_params =
     a_comment ''g''
       [a_tag ''param'' [] ''options'' False [], a_tag ''param'' [] ''options.size'' False [],
        a_tag ''param'' [] ''[done]'' True []]
       (Some (''function'', ''g'')) 1"

text \<open>The string \<^verbatim>\<open>params\<close> as C7 words it: both clean-ups at every place.\<close>

definition claimed_params_string :: "comment \<Rightarrow> jsstring" where
  "claimed_params_string method =
     replace_all [js '', [''] (js ''[, '')
       (replace_all [js ''], [''] (js '', '') (join (js '', '') (param_names method)))"

text \<open>A numeric character reference, and a string without raw markup: it has no
  \<^verbatim>\<open><\<close> and no \<^verbatim>\<open>>\<close>, and a numeric character reference starts at each of its
  \<^verbatim>\<open>&\<close>.\<close>

definition reference :: "nat \<Rightarrow> jsstring" where
  "reference n = js ''&#'' @ decimal n @ js '';''"

definition no_raw_markup :: "jsstring \<Rightarrow> bool" where
  "no_raw_markup out \<longleftrightarrow>
     cu CHR ''<'' \<notin> set out \<and> cu CHR ''>'' \<notin> set out \<and>
     (\<forall>i<length out. out ! i = cu CHR ''&'' \<longrightarrow> (\<exists>n. prefix (reference n) (drop i out)))"

text \<open>A file with a Japanese name and no extension, U+30C6 U+30B9 U+30C8, that declares
  the typedef U+8A2D U+5B9A; the index that is built for it.\<close>

definition settings_name :: jsstring where
  "settings_name = [0x8A2D, 0x5B9A]"

definition settings_index :: linkable where
  "settings_index =
     build_linkable [0x30C6, 0x30B9, 0x30C8]
       [\<lparr>description_full = [],
         tags = [\<lparr>tag_type = js ''typedef'', tag_string = settings_name, tag_name = [],
                  tag_optional = False, tag_types = [], tag_description = []\<rparr>],
         ctx = None, isPrivate = False, ignore = False, line = 1\<rparr>]"

text \<open>The name that a record adds to the index, if it adds one: it is not ignored and its
  first tag is a typedef or a callback.\<close>

definition declared_name :: "comment \<Rightarrow> jsstring option" where
  "declared_name method =
     (if \<not> ignore method \<and> isCallbackOrTypedef method
      then (case tags method of t # _ \<Rightarrow> Some (linkable_name t) | [] \<Rightarrow> None)
      else None)"


text \<open>The callback of \<^verbatim>\<open>forEach\<close> together with the filter of line 105, as one step
  over the records that \<^verbatim>\<open>dox\<close> returned.\<close>

definition register_kept :: "jsstring \<Rightarrow> linkable \<Rightarrow> comment \<Rightarrow> linkable" where
  "register_kept filename linkableObjects method =
     (if ignore method then linkableObjects else register filename linkableObjects method)"

text \<open>A typedef and a function whose parameter has that type.\<close>

definition options_typedef :: comment where
  "options_typedef =
     a_comment ''The options.'' [a_tag ''typedef'' ''Options'' [] False []] None 20"

definition options_user :: comment where
  "options_user =
     a_comment ''Starts.''
       [a_tag ''param'' ''{Options} options'' ''options'' False [''Options'']]
       (Some (''function'', ''start'')) 5"

text \<open>A typedef with the name \<^verbatim>\<open>__proto__\<close>.\<close>

definition proto_typedef :: comment where
  "proto_typedef =
     a_comment ''The prototype of a shape.'' [a_tag ''typedef'' ''__proto__'' [] False []] None 1"



text \<open>A typedef on line 1, a callback on line 6 and two methods on the lines 10 and 3.\<close>

definition mixed_records :: "comment list" where
  "mixed_records =
     [a_comment ''The options.'' [a_tag ''typedef'' ''Options'' [] False []] None 1,
      a_comment ''Called at the end.'' [a_tag ''callback'' ''done'' [] False []] None 6,
      a_comment ''first'' [] (Some (''method'', ''a'')) 10,
      a_comment ''second'' [] (Some (''method'', ''b'')) 3]"

section \<open>Properties of the string normalizers\<close>

lemma formatStringForParam_filter:
  "formatStringForParam s = filter (\<lambda>c. c \<noteq> cu CHR ''['' \<and> c \<noteq> cu CHR '']'') s"
  by (induction s) (auto simp: formatStringForParam_def js_def)

lemma slug_unit_word: "slug_unit c \<Longrightarrow> word_or_period c"
  by (auto simp: slug_unit_def word_or_period_def)

lemma hyphen_not_word: "\<not> word_or_period (cu CHR ''-'')"
  by (simp add: word_or_period_def cu_def)

lemma lower_unit_fixed: "slug_unit c \<or> c = cu CHR ''-'' \<Longrightarrow> lower_unit c = [c]"
  by (auto simp: slug_unit_def lower_unit_def cu_def word_le_nat_alt)

lemma lower_unit_no_capital:
  "d \<in> set (lower_unit c) \<Longrightarrow> \<not> (cu CHR ''A'' \<le> d \<and> d \<le> cu CHR ''Z'')"
  by (auto simp: lower_unit_def cu_def word_le_nat_alt unat_word_ariths split: if_splits)

lemma toLowerCase_no_capital:
  "d \<in> set (toLowerCase s) \<Longrightarrow> \<not> (cu CHR ''A'' \<le> d \<and> d \<le> cu CHR ''Z'')"
  unfolding toLowerCase_def using lower_unit_no_capital by (auto simp del: not_le)

lemma toLowerCase_fixed:
  "list_all (\<lambda>c. slug_unit c \<or> c = cu CHR ''-'') s \<Longrightarrow> toLowerCase s = s"
  by (induction s) (simp_all add: toLowerCase_def lower_unit_fixed)

lemma set_replace_runs:
  "set (replace_runs P rep s) \<subseteq> {c \<in> set s. \<not> P c} \<union> set rep"
proof (induction P rep s rule: replace_runs.induct)
  case (1 P rep)
  then show ?case by simp
next
  case (2 P rep c cs)
  have "set (dropWhile P cs) \<subseteq> set cs"
    by (meson set_dropWhileD subsetI)
  with 2 show ?case by auto
qed

lemma hyphens_single_Cons:
  "hyphens_single (a # s) \<longleftrightarrow>
     (case s of [] \<Rightarrow> True | b # _ \<Rightarrow> \<not> (a = cu CHR ''-'' \<and> b = cu CHR ''-'')) \<and> hyphens_single s"
  by (cases s) auto

lemma replace_runs_head:
  "replace_runs P rep (dropWhile P cs) = [] \<or>
   (\<exists>d r. replace_runs P rep (dropWhile P cs) = d # r \<and> \<not> P d)"
proof (cases "dropWhile P cs")
  case Nil
  show ?thesis unfolding Nil by simp
next
  case (Cons d ds)
  then have "\<not> P d"
    by (metis hd_dropWhile list.distinct(1) list.sel(1))
  with Cons show ?thesis by simp
qed

lemma hyphens_single_replace_runs:
  "P (cu CHR ''-'') \<Longrightarrow> hyphens_single (replace_runs P [cu CHR ''-''] s)"
proof (induction P "[cu CHR ''-'']" s rule: replace_runs.induct)
  case (1 P)
  then show ?case by simp
next
  case (2 P c cs)
  show ?case
  proof (cases "P c")
    case True
    with 2 have ih: "hyphens_single (replace_runs P [cu CHR ''-''] (dropWhile P cs))"
      by simp
    from replace_runs_head [of P "[cu CHR ''-'']" cs] 2(3) ih True show ?thesis
      by (auto simp: hyphens_single_Cons)
  next
    case False
    with 2 have ih: "hyphens_single (replace_runs P [cu CHR ''-''] cs)"
      by simp
    from False 2(3) have "c \<noteq> cu CHR ''-''" by auto
    with ih False show ?thesis
      by (auto simp: hyphens_single_Cons split: list.splits)
  qed
qed

lemma replace_runs_fixed:
  "list_all (\<lambda>c. \<not> P c \<or> c = cu CHR ''-'') s \<Longrightarrow> hyphens_single s \<Longrightarrow>
   replace_runs P [cu CHR ''-''] s = s"
proof (induction s)
  case Nil
  then show ?case by simp
next
  case (Cons c cs)
  then have ih: "replace_runs P [cu CHR ''-''] cs = cs"
    by (simp add: hyphens_single_Cons)
  show ?case
  proof (cases "P c")
    case True
    with Cons.prems have c: "c = cu CHR ''-''" by simp
    have "dropWhile P cs = cs"
    proof (cases cs)
      case Nil
      then show ?thesis by simp
    next
      case (Cons d ds)
      with Cons.prems c True have "\<not> P d" by auto
      with Cons show ?thesis by simp
    qed
    with True c ih show ?thesis by simp
  next
    case False
    with ih show ?thesis by simp
  qed
qed

lemma hyphens_single_butlast: "hyphens_single s \<Longrightarrow> hyphens_single (butlast s)"
  by (induction s rule: hyphens_single.induct) (auto simp: hyphens_single_Cons split: list.splits)

lemma hyphens_single_last:
  "hyphens_single s \<Longrightarrow> butlast s \<noteq> [] \<Longrightarrow> last s = cu CHR ''-'' \<Longrightarrow> last (butlast s) \<noteq> cu CHR ''-''"
  by (induction s rule: hyphens_single.induct) (auto split: if_splits)


lemma prefix_single: "prefix [h] s \<longleftrightarrow> s \<noteq> [] \<and> hd s = h"
  by (cases s) auto

lemma suffix_single: "suffix [h] s \<longleftrightarrow> s \<noteq> [] \<and> last s = h"
  by (cases s rule: rev_cases) auto

lemma is_slug_strip_hyphens:
  assumes "list_all (\<lambda>c. slug_unit c \<or> c = cu CHR ''-'') s" and "hyphens_single s"
  shows "is_slug (strip_hyphens s)"
proof -
  define s1 where "s1 = (case s of c # cs \<Rightarrow> if c = cu CHR ''-'' then cs else s | [] \<Rightarrow> [])"
  have s1_all: "list_all (\<lambda>c. slug_unit c \<or> c = cu CHR ''-'') s1"
    using assms(1) by (cases s) (auto simp: s1_def)
  have s1_single: "hyphens_single s1"
    using assms(2) by (cases s) (auto simp: s1_def hyphens_single_Cons)
  have s1_hd: "s1 \<noteq> [] \<Longrightarrow> hd s1 \<noteq> cu CHR ''-''"
  proof (cases s)
    case Nil
    then show "s1 \<noteq> [] \<Longrightarrow> hd s1 \<noteq> cu CHR ''-''" by (simp add: s1_def)
  next
    case (Cons c cs)
    assume "s1 \<noteq> []"
    with Cons assms(2) show "hd s1 \<noteq> cu CHR ''-''"
      by (cases cs) (simp_all add: s1_def split: if_splits)
  qed
  have strip: "strip_hyphens s = (if s1 \<noteq> [] \<and> last s1 = cu CHR ''-'' then butlast s1 else s1)"
    by (simp add: strip_hyphens_def s1_def)
  show ?thesis
  proof (cases "s1 \<noteq> [] \<and> last s1 = cu CHR ''-''")
    case True
    have "list_all (\<lambda>c. slug_unit c \<or> c = cu CHR ''-'') (butlast s1)"
      using s1_all by (auto simp: list_all_iff dest: in_set_butlastD)
    moreover have "hyphens_single (butlast s1)"
      using s1_single by (rule hyphens_single_butlast)
    moreover have "butlast s1 \<noteq> [] \<Longrightarrow> hd (butlast s1) \<noteq> cu CHR ''-''"
      using s1_hd True by (cases s1) (simp_all split: if_splits)
    moreover have "butlast s1 \<noteq> [] \<Longrightarrow> last (butlast s1) \<noteq> cu CHR ''-''"
      using hyphens_single_last [OF s1_single] True by simp
    ultimately show ?thesis
      using True by (auto simp: strip is_slug_def prefix_single suffix_single)
  next
    case False
    with s1_all s1_single s1_hd show ?thesis
      by (auto simp: strip is_slug_def prefix_single suffix_single)
  qed
qed

lemma is_slug_formatStringForUID: "is_slug (formatStringForUID s)"
proof -
  let ?t = "replace_runs (\<lambda>c. \<not> word_or_period c) (js ''-'') (toLowerCase s)"
  have "list_all (\<lambda>c. slug_unit c \<or> c = cu CHR ''-'') ?t"
  proof -
    have "c \<in> set ?t \<Longrightarrow> slug_unit c \<or> c = cu CHR ''-''" for c
      using set_replace_runs [of "\<lambda>c. \<not> word_or_period c" "js ''-''" "toLowerCase s"]
        toLowerCase_no_capital [of c s]
      by (auto simp: js_def slug_unit_def word_or_period_def simp del: not_le)
    then show ?thesis by (simp add: list_all_iff)
  qed
  moreover have "hyphens_single ?t"
    using hyphens_single_replace_runs [of "\<lambda>c. \<not> word_or_period c" "toLowerCase s"]
    by (simp add: js_def hyphen_not_word)
  ultimately show ?thesis
    unfolding formatStringForUID_def by (rule is_slug_strip_hyphens)
qed

lemma formatStringForUID_fixed: "is_slug s \<Longrightarrow> formatStringForUID s = s"
proof -
  assume s: "is_slug s"
  then have all: "list_all (\<lambda>c. slug_unit c \<or> c = cu CHR ''-'') s" and single: "hyphens_single s"
    by (simp_all add: is_slug_def)
  have "list_all (\<lambda>c. \<not> \<not> word_or_period c \<or> c = cu CHR ''-'') s"
    using all by (auto simp: list_all_iff slug_unit_word)
  then have "replace_runs (\<lambda>c. \<not> word_or_period c) [cu CHR ''-''] s = s"
    using single by (rule replace_runs_fixed)
  moreover have "strip_hyphens s = s"
  proof (cases s)
    case Nil
    then show ?thesis by (simp add: strip_hyphens_def)
  next
    case (Cons c cs)
    with s have "c \<noteq> cu CHR ''-''" and "last (c # cs) \<noteq> cu CHR ''-''"
      by (auto simp: is_slug_def prefix_single suffix_single)
    with Cons show ?thesis by (auto simp: strip_hyphens_def)
  qed
  ultimately show ?thesis
    by (simp add: formatStringForUID_def toLowerCase_fixed [OF all] js_def)
qed

lemma replace_all_absent: "\<not> occurs pats s \<Longrightarrow> replace_all pats rep s = s"
  by (induction s) auto

text \<open>
  C8, as amended. The Param and the UID formatter are idempotent on every string. The
  Name formatter applied twice gives what it gives once when the kind is not
  \<^verbatim>\<open>callback\<close> and its first result holds none of the three substrings it removes.
\<close>

theorem normalizers_idempotent:
  "formatStringForParam (formatStringForParam s) = formatStringForParam s \<and>
   formatStringForUID (formatStringForUID s) = formatStringForUID s \<and>
   (type \<noteq> js ''callback'' \<and>
    \<not> occurs [js ''module.exports.'', js ''.prototype'', js ''()'']
         (formatStringForName s type) \<longrightarrow>
    formatStringForName (formatStringForName s type) type = formatStringForName s type)"
proof (intro conjI impI)
  show "formatStringForParam (formatStringForParam s) = formatStringForParam s"
    by (simp add: formatStringForParam_filter)
  show "formatStringForUID (formatStringForUID s) = formatStringForUID s"
    by (rule formatStringForUID_fixed) (rule is_slug_formatStringForUID)
next
  assume "type \<noteq> js ''callback'' \<and>
    \<not> occurs [js ''module.exports.'', js ''.prototype'', js ''()'']
         (formatStringForName s type)"
  then have kind: "type \<noteq> js ''callback''"
    and "\<not> occurs [js ''module.exports.'', js ''.prototype'', js ''()'']
           (formatStringForName s type)"
    by simp_all
  then have "\<not> occurs [js ''module.exports.'', js ''.prototype'', js ''()'']
      (replace_all [js ''module.exports.'', js ''.prototype'', js ''()''] [] s)"
    by (simp add: formatStringForName_def)
  with kind
  show "formatStringForName (formatStringForName s type) type = formatStringForName s type"
    by (simp add: formatStringForName_def replace_all_absent)
qed

theorem normalizers_idempotent_witness:
  "formatStringForName (formatStringForName (js ''module.exports.parser()'') []) [] =
     formatStringForName (js ''module.exports.parser()'') [] \<and>
   formatStringForName (js ''module.exports.parser()'') [] = js ''parser''"
proof -
  have name: "formatStringForName (js ''module.exports.parser()'') [] = js ''parser''"
    by (simp add: formatStringForName_def js_def cu_def)
  have "[] \<noteq> js ''callback'' \<and>
    \<not> occurs [js ''module.exports.'', js ''.prototype'', js ''()'']
         (formatStringForName (js ''module.exports.parser()'') [])"
    unfolding name by (simp add: js_def cu_def)
  with normalizers_idempotent [of "js ''module.exports.parser()''" "[]"] name
  show ?thesis by blast
qed

theorem name_formatter_not_idempotent:
  "formatStringForName (formatStringForName (js ''(())'') []) [] \<noteq>
   formatStringForName (js ''(())'') []"
  by (simp add: formatStringForName_def js_def cu_def)

section \<open>The order of the output\<close>

lemma extend_run_append:
  "extend_run comparefn d p xs = (run, rest) \<Longrightarrow> run @ rest = xs"
  by (induction xs arbitrary: p run rest) (auto simp: Let_def split: if_splits prod.splits)

lemma extend_run_descending:
  "answers_true comparefn before \<Longrightarrow> extend_run comparefn True p xs = (run, rest) \<Longrightarrow>
   successively (\<lambda>a b. before b a) (p # run)"
  by (induction xs arbitrary: p run rest)
     (auto simp: Let_def answers_true_def split: if_splits prod.splits)

lemma extend_run_ascending:
  "answers_true comparefn before \<Longrightarrow> extend_run comparefn False p xs = (run, rest) \<Longrightarrow>
   successively before (p # run)"
  by (induction xs arbitrary: p run rest)
     (auto simp: Let_def answers_true_def split: if_splits prod.splits)

lemma count_and_make_run_mset:
  "count_and_make_run comparefn xs = (run, rest) \<Longrightarrow> mset run + mset rest = mset xs"
proof (cases xs)
  case Nil
  then show "count_and_make_run comparefn xs = (run, rest) \<Longrightarrow> mset run + mset rest = mset xs"
    by (simp add: count_and_make_run_def)
next
  case one: (Cons a as)
  assume r: "count_and_make_run comparefn xs = (run, rest)"
  show "mset run + mset rest = mset xs"
  proof (cases as)
    case Nil
    with one r show ?thesis by (simp add: count_and_make_run_def)
  next
    case (Cons b bs)
    obtain run' rest' where e: "extend_run comparefn (comparefn b a < 0) b bs = (run', rest')"
      by (cases "extend_run comparefn (comparefn b a < 0) b bs") auto
    from extend_run_append [OF e] have "mset run' + mset rest' = mset bs"
      by (metis mset_append)
    with one Cons r e show ?thesis
      by (auto simp: count_and_make_run_def Let_def split: if_splits)
  qed
qed

lemma count_and_make_run_sorted:
  assumes "transp before" and "answers_true comparefn before"
    and "count_and_make_run comparefn xs = (run, rest)"
  shows "sorted_wrt before run"
proof (cases xs)
  case Nil
  with assms(3) show ?thesis by (simp add: count_and_make_run_def)
next
  case one: (Cons a as)
  show ?thesis
  proof (cases as)
    case Nil
    with one assms(3) show ?thesis by (auto simp: count_and_make_run_def)
  next
    case (Cons b bs)
    obtain run' rest' where e: "extend_run comparefn (comparefn b a < 0) b bs = (run', rest')"
      by (cases "extend_run comparefn (comparefn b a < 0) b bs") auto
    show ?thesis
    proof (cases "comparefn b a < 0")
      case True
      with assms(2) have "before b a" by (simp add: answers_true_def)
      moreover from True e extend_run_descending [OF assms(2), of b bs run' rest']
      have "successively (\<lambda>x y. before y x) (b # run')" by simp
      ultimately have "successively (\<lambda>x y. before y x) (a # b # run')" by simp
      then have "successively before (rev (a # b # run'))"
        by (simp only: successively_rev)
      with assms(1) have "sorted_wrt before (rev (a # b # run'))"
        by (simp only: successively_conv_sorted_wrt)
      with one Cons assms(3) e True show ?thesis
        by (auto simp: count_and_make_run_def)
    next
      case False
      with assms(2) have "before a b" by (simp add: answers_true_def)
      moreover from False e extend_run_ascending [OF assms(2), of b bs run' rest']
      have "successively before (b # run')" by simp
      ultimately have "successively before (a # b # run')" by simp
      with assms(1) have "sorted_wrt before (a # b # run')"
        by (simp only: successively_conv_sorted_wrt)
      with one Cons assms(3) e False show ?thesis
        by (auto simp: count_and_make_run_def)
    qed
  qed
qed

lemma binary_search_done:
  "\<not> left < right \<Longrightarrow> binary_search comparefn pivot work left right = left"
  by (subst binary_search.simps) simp

lemma binary_search_less:
  "left < right \<Longrightarrow> comparefn pivot (work ! (left + (right - left) div 2)) < 0 \<Longrightarrow>
   binary_search comparefn pivot work left right =
     binary_search comparefn pivot work left (left + (right - left) div 2)"
  by (subst binary_search.simps) simp

lemma binary_search_not_less:
  "left < right \<Longrightarrow> \<not> comparefn pivot (work ! (left + (right - left) div 2)) < 0 \<Longrightarrow>
   binary_search comparefn pivot work left right =
     binary_search comparefn pivot work (left + (right - left) div 2 + 1) right"
  by (subst binary_search.simps) simp

lemma binary_search_bounds:
  "left \<le> right \<Longrightarrow>
   left \<le> binary_search comparefn pivot work left right \<and>
   binary_search comparefn pivot work left right \<le> right"
proof (induction comparefn pivot work left right rule: binary_search.induct)
  case (1 comparefn pivot work left right)
  show ?case
  proof (cases "left < right")
    case False
    with 1(3) show ?thesis by (simp add: binary_search_done)
  next
    case True
    define mid where "mid = left + (right - left) div 2"
    from True have mid: "left \<le> mid" "mid < right" by (simp_all add: mid_def)
    show ?thesis
    proof (cases "comparefn pivot (work ! mid) < 0")
      case less: True
      have eq: "binary_search comparefn pivot work left right =
          binary_search comparefn pivot work left mid"
        using True less unfolding mid_def by (rule binary_search_less)
      from 1(1) [OF True mid_def less] mid
      have "left \<le> binary_search comparefn pivot work left mid \<and>
        binary_search comparefn pivot work left mid \<le> mid" by simp
      with mid show ?thesis by (simp add: eq)
    next
      case notless: False
      have eq: "binary_search comparefn pivot work left right =
          binary_search comparefn pivot work (mid + 1) right"
        using True notless unfolding mid_def by (rule binary_search_not_less)
      from 1(2) [OF True mid_def notless] mid
      have "mid + 1 \<le> binary_search comparefn pivot work (mid + 1) right \<and>
        binary_search comparefn pivot work (mid + 1) right \<le> right" by simp
      with mid show ?thesis by (simp add: eq)
    qed
  qed
qed

lemma binary_search_place:
  "transp before \<Longrightarrow> answers_true comparefn before \<Longrightarrow> sorted_wrt before work \<Longrightarrow>
   left \<le> right \<Longrightarrow> right \<le> length work \<Longrightarrow>
   (\<forall>i<left. before (work ! i) pivot) \<Longrightarrow>
   (\<forall>i. right \<le> i \<and> i < length work \<longrightarrow> before pivot (work ! i)) \<Longrightarrow>
   (\<forall>i<binary_search comparefn pivot work left right. before (work ! i) pivot) \<and>
   (\<forall>i. binary_search comparefn pivot work left right \<le> i \<and> i < length work \<longrightarrow>
      before pivot (work ! i))"
proof (induction comparefn pivot work left right rule: binary_search.induct)
  case (1 comparefn pivot work left right)
  note trans = \<open>transp before\<close> and answers = \<open>answers_true comparefn before\<close>
    and sorted = \<open>sorted_wrt before work\<close>
  show ?case
  proof (cases "left < right")
    case False
    with 1(6-9) show ?thesis by (simp add: binary_search_done)
  next
    case True
    define mid where "mid = left + (right - left) div 2"
    from True have mid: "left \<le> mid" "mid < right" by (simp_all add: mid_def)
    show ?thesis
    proof (cases "comparefn pivot (work ! mid) < 0")
      case less: True
      have eq: "binary_search comparefn pivot work left right =
          binary_search comparefn pivot work left mid"
        using True less unfolding mid_def by (rule binary_search_less)
      from less answers have pm: "before pivot (work ! mid)" by (simp add: answers_true_def)
      have above: "\<forall>i. mid \<le> i \<and> i < length work \<longrightarrow> before pivot (work ! i)"
      proof (intro allI impI)
        fix i assume i: "mid \<le> i \<and> i < length work"
        show "before pivot (work ! i)"
        proof (cases "i = mid")
          case True
          with pm show ?thesis by simp
        next
          case False
          with i sorted have "before (work ! mid) (work ! i)"
            by (simp add: sorted_wrt_iff_nth_less)
          with pm trans show ?thesis by (blast dest: transpD)
        qed
      qed
      from mid 1(7) have "mid \<le> length work" by simp
      from 1(1) [OF True mid_def less trans answers sorted mid(1) this 1(8) above]
      show ?thesis by (simp add: eq)
    next
      case notless: False
      have eq: "binary_search comparefn pivot work left right =
          binary_search comparefn pivot work (mid + 1) right"
        using True notless unfolding mid_def by (rule binary_search_not_less)
      from notless answers have mp: "before (work ! mid) pivot" by (simp add: answers_true_def)
      have below: "\<forall>i<mid + 1. before (work ! i) pivot"
      proof (intro allI impI)
        fix i assume i: "i < mid + 1"
        show "before (work ! i) pivot"
        proof (cases "i = mid")
          case True
          with mp show ?thesis by simp
        next
          case False
          with i mid 1(7) sorted have "before (work ! i) (work ! mid)"
            by (simp add: sorted_wrt_iff_nth_less)
          with mp trans show ?thesis by (blast dest: transpD)
        qed
      qed
      from mid have "mid + 1 \<le> right" by simp
      from 1(2) [OF True mid_def notless trans answers sorted this 1(7) below 1(9)]
      show ?thesis by (simp add: eq)
    qed
  qed
qed

lemma sorted_binary_insert:
  assumes "transp before" and "answers_true comparefn before" and "sorted_wrt before run"
  shows "sorted_wrt before (binary_insert comparefn run pivot)"
proof -
  define left where "left = binary_search comparefn pivot run 0 (length run)"
  have "(0::nat) \<le> length run" and "length run \<le> length run"
    and "\<forall>i<0::nat. before (run ! i) pivot"
    and "\<forall>i. length run \<le> i \<and> i < length run \<longrightarrow> before pivot (run ! i)"
    by auto
  from binary_search_place [OF assms this]
  have below: "\<forall>i<left. before (run ! i) pivot"
    and above: "\<forall>i. left \<le> i \<and> i < length run \<longrightarrow> before pivot (run ! i)"
    by (simp_all add: left_def)
  from binary_search_bounds [of 0 "length run" comparefn pivot run]
  have bound: "left \<le> length run" by (simp add: left_def)
  from assms(3) have "sorted_wrt before (take left run @ drop left run)" by simp
  then have both: "sorted_wrt before (take left run)" "sorted_wrt before (drop left run)"
    by (simp_all only: sorted_wrt_append)
  have "\<forall>x\<in>set (take left run). before x pivot"
    using below bound by (auto simp: in_set_conv_nth)
  moreover have "\<forall>y\<in>set (drop left run). before pivot y"
    using above by (auto simp: in_set_conv_nth)
  ultimately have "sorted_wrt before (take left run @ pivot # drop left run)"
    using both assms(1) by (auto simp: sorted_wrt_append dest: transpD)
  then show ?thesis by (simp add: binary_insert_def left_def Let_def)
qed

lemma mset_binary_insert: "mset (binary_insert comparefn run pivot) = add_mset pivot (mset run)"
proof -
  have "mset (take n run) + mset (drop n run) = mset run" for n
    by (metis append_take_drop_id mset_append)
  then show ?thesis by (simp add: binary_insert_def Let_def)
qed

lemma sorted_foldl_binary_insert:
  "transp before \<Longrightarrow> answers_true comparefn before \<Longrightarrow> sorted_wrt before run \<Longrightarrow>
   sorted_wrt before (foldl (binary_insert comparefn) run rest)"
  by (induction rest arbitrary: run) (simp_all add: sorted_binary_insert)

lemma mset_foldl_binary_insert:
  "mset (foldl (binary_insert comparefn) run rest) = mset run + mset rest"
  by (induction rest arbitrary: run) (simp_all add: mset_binary_insert)

lemma mset_binary_insertion_sort: "mset (binary_insertion_sort comparefn xs) = mset xs"
proof (cases "length xs < 2")
  case True
  then show ?thesis by (simp add: binary_insertion_sort_def)
next
  case False
  obtain run rest where r: "count_and_make_run comparefn xs = (run, rest)"
    by (cases "count_and_make_run comparefn xs") auto
  with False count_and_make_run_mset [OF r] show ?thesis
    by (simp add: binary_insertion_sort_def mset_foldl_binary_insert)
qed

lemma sorted_binary_insertion_sort:
  assumes "transp before" and "answers_true comparefn before"
  shows "sorted_wrt before (binary_insertion_sort comparefn xs)"
proof (cases "length xs < 2")
  case True
  then have "xs = [] \<or> (\<exists>x. xs = [x])"
    by (cases xs) (auto simp: length_Suc_conv)
  with True show ?thesis by (auto simp: binary_insertion_sort_def)
next
  case False
  obtain run rest where r: "count_and_make_run comparefn xs = (run, rest)"
    by (cases "count_and_make_run comparefn xs") auto
  from count_and_make_run_sorted [OF assms r] have "sorted_wrt before run" .
  with False r assms show ?thesis
    by (simp add: binary_insertion_sort_def sorted_foldl_binary_insert)
qed

lemma binary_insertion_sort_sorts_by_answers: "sorts_by_answers binary_insertion_sort"
  by (simp add: sorts_by_answers_def sorted_binary_insertion_sort mset_binary_insertion_sort)

lemma sorts_by_answers_keeps_elements:
  assumes "sorts_by_answers engineSort"
  shows "keeps_elements engineSort"
proof -
  have "transp (\<lambda>a b :: 'a. True)" by (simp add: transp_def)
  moreover have "answers_true comparefn (\<lambda>a b :: 'a. True)" for comparefn
    by (simp add: answers_true_def)
  ultimately show ?thesis
    using assms unfolding sorts_by_answers_def keeps_elements_def by blast
qed

lemma binary_insertion_sort_keeps_elements: "keeps_elements binary_insertion_sort"
  by (rule sorts_by_answers_keeps_elements) (rule binary_insertion_sort_sorts_by_answers)

lemma set_insert_left: "set (insert_left comparefn x placed) = insert x (set placed)"
  by (induction placed) auto

lemma mset_insert_left: "mset (insert_left comparefn x placed) = add_mset x (mset placed)"
  by (induction placed) auto

lemma sorted_insert_left:
  assumes "transp before" and "answers_true comparefn before"
  shows "sorted_wrt (\<lambda>a b. before b a) placed \<Longrightarrow>
         sorted_wrt (\<lambda>a b. before b a) (insert_left comparefn x placed)"
proof (induction placed)
  case Nil
  then show ?case by simp
next
  case (Cons y ys)
  show ?case
  proof (cases "comparefn y x > 0")
    case True
    with assms(2) have "before x y" by (simp add: answers_true_def)
    with Cons True show ?thesis
      by (auto simp: set_insert_left)
  next
    case False
    with assms(2) have yx: "before y x" by (simp add: answers_true_def)
    from Cons.prems have "\<forall>z\<in>set ys. before z y" by simp
    with yx assms(1) have "\<forall>z\<in>set ys. before z x" by (blast dest: transpD)
    with Cons.prems False yx show ?thesis by auto
  qed
qed

lemma sorted_foldl_insert_left:
  "transp before \<Longrightarrow> answers_true comparefn before \<Longrightarrow>
   sorted_wrt (\<lambda>a b. before b a) placed \<Longrightarrow>
   sorted_wrt (\<lambda>a b. before b a)
     (foldl (\<lambda>placed element. insert_left comparefn element placed) placed xs)"
  by (induction xs arbitrary: placed) (simp_all add: sorted_insert_left)

lemma mset_foldl_insert_left:
  "mset (foldl (\<lambda>placed element. insert_left comparefn element placed) placed xs) =
   mset xs + mset placed"
  by (induction xs arbitrary: placed) (simp_all add: mset_insert_left)

lemma insertion_sort_sorts_by_answers: "sorts_by_answers insertion_sort"
proof -
  have "sorted_wrt before (insertion_sort comparefn xs)"
    if "transp before" and "answers_true comparefn before"
    for comparefn :: "'a \<Rightarrow> 'a \<Rightarrow> int" and before xs
    using sorted_foldl_insert_left [OF that, of "[]" xs]
    by (simp add: insertion_sort_def sorted_wrt_rev)
  moreover have "mset (insertion_sort comparefn xs) = mset xs"
    for comparefn :: "'a \<Rightarrow> 'a \<Rightarrow> int" and xs
    by (simp add: insertion_sort_def mset_foldl_insert_left)
  ultimately show ?thesis by (simp add: sorts_by_answers_def)
qed

lemma transp_placed_before: "transp placed_before"
  by (rule transpI) (auto simp: placed_before_def split: if_splits)

lemma compare_entities_answers: "answers_true compare_entities placed_before"
  unfolding answers_true_def
  by (auto simp: compare_entities_def placed_before_def split: if_splits option.splits)

lemma parser_sorted:
  "sorts_by_answers engineSort \<Longrightarrow>
   sorted_wrt placed_before (parser engineSort ignoreCase filename comments)"
  using transp_placed_before compare_entities_answers
  unfolding sorts_by_answers_def parser_def by blast

lemma parser_mset:
  "keeps_elements engineSort \<Longrightarrow>
   mset (parser engineSort ignoreCase filename comments) =
     mset (filter (\<lambda>method. \<not> e_empty method) (entities ignoreCase filename comments))"
  by (simp add: keeps_elements_def parser_def)

lemma lines_in_order:
  assumes "sorted_wrt placed_before out" and "\<forall>e\<in>set out. \<not> e_toBottom e"
  shows "sorted (map e_line out)"
proof -
  from assms(2) have "\<And>a b. a \<in> set out \<Longrightarrow> b \<in> set out \<Longrightarrow> placed_before a b \<Longrightarrow>
      e_line a \<le> e_line b"
    by (simp add: placed_before_def)
  with assms(1) have "sorted_wrt (\<lambda>a b. e_line a \<le> e_line b) out"
    by (rule sorted_wrt_mono_rel [rotated]) 
  then show ?thesis by (simp add: sorted_map)
qed

text \<open>
  C4. Let the sort of the engine place the elements by the answers of the comparator (the
  property \<open>sorts_by_answers\<close>, which the sort of V8 for short arrays has). Then in the
  output of the parser an entity with \<^verbatim>\<open>toBottom\<close> never stands before one without it,
  and two entities without it stand in the order of their lines; the output holds the
  entities that are not empty, each as often as before the sort; the methods on the lines
  10, 3 and 7 come out in the order 3, 7, 10.
\<close>

theorem parser_order:
  assumes "sorts_by_answers engineSort"
  shows "(\<forall>i j. i < j \<and> j < length (parser engineSort ignoreCase filename comments) \<longrightarrow>
      (e_toBottom (parser engineSort ignoreCase filename comments ! i) \<longrightarrow>
         e_toBottom (parser engineSort ignoreCase filename comments ! j)) \<and>
      (\<not> e_toBottom (parser engineSort ignoreCase filename comments ! i) \<and>
       \<not> e_toBottom (parser engineSort ignoreCase filename comments ! j) \<longrightarrow>
         e_line (parser engineSort ignoreCase filename comments ! i)
           \<le> e_line (parser engineSort ignoreCase filename comments ! j))) \<and>
   mset (parser engineSort ignoreCase filename comments) =
     mset (filter (\<lambda>method. \<not> e_empty method) (entities ignoreCase filename comments)) \<and>
   map e_line (parser engineSort ignoreCase (js ''lib.js'') three_methods) = [3, 7, 10]"
proof (intro conjI allI impI)
  fix i j
  assume ij: "i < j \<and> j < length (parser engineSort ignoreCase filename comments)"
  from parser_sorted [OF assms]
  have "sorted_wrt placed_before (parser engineSort ignoreCase filename comments)" .
  with ij have before: "placed_before (parser engineSort ignoreCase filename comments ! i)
      (parser engineSort ignoreCase filename comments ! j)"
    by (simp add: sorted_wrt_iff_nth_less)
  {
    assume "e_toBottom (parser engineSort ignoreCase filename comments ! i)"
    with before show "e_toBottom (parser engineSort ignoreCase filename comments ! j)"
      by (simp add: placed_before_def)
  }
  {
    assume "\<not> e_toBottom (parser engineSort ignoreCase filename comments ! i) \<and>
       \<not> e_toBottom (parser engineSort ignoreCase filename comments ! j)"
    with before show "e_line (parser engineSort ignoreCase filename comments ! i)
           \<le> e_line (parser engineSort ignoreCase filename comments ! j)"
      by (simp add: placed_before_def)
  }
next
  from sorts_by_answers_keeps_elements [OF assms] have keeps: "keeps_elements engineSort" .
  from parser_mset [OF keeps]
  show "mset (parser engineSort ignoreCase filename comments) =
     mset (filter (\<lambda>method. \<not> e_empty method) (entities ignoreCase filename comments))" .
  define kept where
    "kept = filter (\<lambda>method. \<not> e_empty method) (entities ignoreCase (js ''lib.js'') three_methods)"
  define out where "out = parser engineSort ignoreCase (js ''lib.js'') three_methods"
  have lines: "map e_line kept = [10, 3, 7]"
    unfolding kept_def by code_simp
  have top: "map e_toBottom kept = [False, False, False]"
    unfolding kept_def by code_simp
  have same: "mset out = mset kept"
    unfolding out_def kept_def by (rule parser_mset [OF keeps])
  have "\<forall>e\<in>set kept. \<not> e_toBottom e"
  proof
    fix e assume "e \<in> set kept"
    then have "e_toBottom e \<in> set (map e_toBottom kept)" by simp
    then show "\<not> e_toBottom e" by (simp add: top)
  qed
  moreover from same have "set out = set kept" by (rule mset_eq_setD)
  ultimately have none: "\<forall>e\<in>set out. \<not> e_toBottom e" by simp
  have "sorted_wrt placed_before out"
    unfolding out_def by (rule parser_sorted [OF assms])
  from lines_in_order [OF this none] have "sorted (map e_line out)" .
  moreover from same have "mset (map e_line out) = mset (map e_line kept)" by simp
  then have "mset (map e_line out) = mset [10, 3, 7 :: int]" by (simp add: lines)
  ultimately have "sort [10, 3, 7 :: int] = map e_line out"
    by (rule properties_for_sort [rotated])
  then show "map e_line (parser engineSort ignoreCase (js ''lib.js'') three_methods) = [3, 7, 10]"
    by (simp add: out_def)
qed

theorem parser_order_witness:
  "sorts_by_answers (binary_insertion_sort :: (entity \<Rightarrow> entity \<Rightarrow> int) \<Rightarrow> entity list \<Rightarrow> entity list) \<and>
   map e_toBottom (entities no_pairs (js ''lib.js'') mixed_records) = [True, True, False, False] \<and>
   map e_line (entities no_pairs (js ''lib.js'') mixed_records) = [1, 6, 10, 3] \<and>
   length (parser binary_insertion_sort no_pairs (js ''lib.js'') mixed_records) = 4 \<and>
   \<not> e_toBottom (parser binary_insertion_sort no_pairs (js ''lib.js'') mixed_records ! 1) \<and>
   e_toBottom (parser binary_insertion_sort no_pairs (js ''lib.js'') mixed_records ! 2) \<and>
   e_toBottom (parser binary_insertion_sort no_pairs (js ''lib.js'') mixed_records ! 3) \<and>
   \<not> e_toBottom (parser binary_insertion_sort no_pairs (js ''lib.js'') mixed_records ! 0) \<and>
   e_line (parser binary_insertion_sort no_pairs (js ''lib.js'') mixed_records ! 0)
     \<le> e_line (parser binary_insertion_sort no_pairs (js ''lib.js'') mixed_records ! 1) \<and>
   map e_line (parser binary_insertion_sort no_pairs (js ''lib.js'') mixed_records) = [3, 10, 1, 6] \<and>
   map e_line (parser binary_insertion_sort no_pairs (js ''lib.js'') three_methods) = [3, 7, 10]"
proof -
  let ?out = "parser binary_insertion_sort no_pairs (js ''lib.js'') mixed_records"
  note order = parser_order [OF binary_insertion_sort_sorts_by_answers,
      of no_pairs "js ''lib.js''" mixed_records]
  have bottoms: "map e_toBottom (entities no_pairs (js ''lib.js'') mixed_records) =
      [True, True, False, False]"
    by code_simp
  have lines: "map e_line (entities no_pairs (js ''lib.js'') mixed_records) = [1, 6, 10, 3]"
    by code_simp
  have len: "length ?out = 4"
    by code_simp
  have second: "\<not> e_toBottom (?out ! 1)"
    by code_simp
  have third: "e_toBottom (?out ! 2)"
    by code_simp
  have "(2::nat) < 3 \<and> 3 < length ?out"
    by (simp add: len)
  with order third have fourth: "e_toBottom (?out ! 3)"
    by blast
  have "(0::nat) < 1 \<and> 1 < length ?out"
    by (simp add: len)
  with order second have first: "\<not> e_toBottom (?out ! 0)"
    by blast
  have "(0::nat) < 1 \<and> 1 < length ?out"
    by (simp add: len)
  with order first second have le: "e_line (?out ! 0) \<le> e_line (?out ! 1)"
    by blast
  have all: "map e_line ?out = [3, 10, 1, 6]"
    by code_simp
  from order have three:
    "map e_line (parser binary_insertion_sort no_pairs (js ''lib.js'') three_methods) = [3, 7, 10]"
    by blast
  show ?thesis
    by (rule conjI [OF binary_insertion_sort_sorts_by_answers conjI [OF bottoms conjI [OF lines
        conjI [OF len conjI [OF second conjI [OF third conjI [OF fourth conjI [OF first
        conjI [OF le conjI [OF all three]]]]]]]]]])
qed

section \<open>The entities of the output\<close>

lemma parser_entity:
  assumes "keeps_elements engineSort"
    and "e \<in> set (parser engineSort ignoreCase filename comments)"
  shows "\<exists>method\<in>set comments. \<not> ignore method \<and>
     e = build_entity ignoreCase filename
           (build_linkable filename (filter (\<lambda>method. \<not> ignore method) comments)) method"
proof -
  from parser_mset [OF assms(1)]
  have "set (parser engineSort ignoreCase filename comments) =
      set (filter (\<lambda>method. \<not> e_empty method) (entities ignoreCase filename comments))"
    by (rule mset_eq_setD)
  with assms(2) show ?thesis
    by (auto simp: entities_def Let_def)
qed

lemma parser_single:
  assumes "keeps_elements engineSort"
    and "filter (\<lambda>method. \<not> e_empty method) (entities ignoreCase filename comments) = [e]"
  shows "parser engineSort ignoreCase filename comments = [e]"
proof -
  from parser_mset [OF assms(1), of ignoreCase filename comments] assms(2)
  have "mset (parser engineSort ignoreCase filename comments) = {#e#}" by simp
  then show ?thesis by simp
qed

lemma build_entity_uid_ctx:
  "ctx method = Some c \<Longrightarrow>
   e_uid (build_entity ignoreCase filename linkableObjects method) =
     Some (formatStringForUID (filename @ js ''-'' @ ctx_string c))"
  by (simp add: build_entity_def)

lemma build_entity_uid_tag:
  "ctx method = None \<Longrightarrow> tags method = t # ts \<Longrightarrow>
   tag_type t = js ''typedef'' \<or> tag_type t = js ''callback'' \<Longrightarrow>
   e_uid (build_entity ignoreCase filename linkableObjects method) =
     Some (formatStringForUID (filename @ js ''-'' @ tag_string t))"
  by (simp add: build_entity_def isCallbackOrTypedef_def)

text \<open>
  C1, at the input where the code leaves it, for every sort that keeps the elements. The
  comment has no \<^verbatim>\<open>ctx\<close> and no tags, so line 196 sets \<^verbatim>\<open>method.empty\<close>; it has a
  description, so \<^verbatim>\<open>params.empty\<close> is false, and the output holds an entity for it,
  without \<^verbatim>\<open>uid\<close>, \<^verbatim>\<open>type\<close> and \<^verbatim>\<open>name\<close>.
\<close>

theorem stray_comment_in_output:
  assumes "keeps_elements engineSort"
  shows "marks_method_empty stray_comment \<and>
   map e_description (parser engineSort ignoreCase (js ''lib.js'') [stray_comment]) =
     [js ''Helpers for the tests.''] \<and>
   map e_uid (parser engineSort ignoreCase (js ''lib.js'') [stray_comment]) = [None] \<and>
   map e_type (parser engineSort ignoreCase (js ''lib.js'') [stray_comment]) = [None] \<and>
   map e_name (parser engineSort ignoreCase (js ''lib.js'') [stray_comment]) = [None]"
proof -
  define e where "e = build_entity ignoreCase (js ''lib.js'')
      (build_linkable (js ''lib.js'') [stray_comment]) stray_comment"
  have "\<not> ignore stray_comment" by code_simp
  then have all: "entities ignoreCase (js ''lib.js'') [stray_comment] = [e]"
    by (simp add: entities_def e_def)
  have "\<not> e_empty e" unfolding e_def by code_simp
  with all have "filter (\<lambda>method. \<not> e_empty method)
      (entities ignoreCase (js ''lib.js'') [stray_comment]) = [e]"
    by simp
  from parser_single [OF assms this]
  have out: "parser engineSort ignoreCase (js ''lib.js'') [stray_comment] = [e]" .
  have "marks_method_empty stray_comment" by code_simp
  moreover have "e_description e = js ''Helpers for the tests.''" unfolding e_def by code_simp
  moreover have "e_uid e = None" unfolding e_def by code_simp
  moreover have "e_type e = None" unfolding e_def by code_simp
  moreover have "e_name e = None" unfolding e_def by code_simp
  ultimately show ?thesis by (simp add: out)
qed

theorem stray_comment_in_output_witness:
  "keeps_elements (binary_insertion_sort :: (entity \<Rightarrow> entity \<Rightarrow> int) \<Rightarrow> entity list \<Rightarrow> entity list) \<and>
   marks_method_empty stray_comment \<and>
   map e_description (parser binary_insertion_sort no_pairs (js ''lib.js'') [stray_comment]) =
     [js ''Helpers for the tests.''] \<and>
   map e_uid (parser binary_insertion_sort no_pairs (js ''lib.js'') [stray_comment]) = [None] \<and>
   map e_type (parser binary_insertion_sort no_pairs (js ''lib.js'') [stray_comment]) = [None] \<and>
   map e_name (parser binary_insertion_sort no_pairs (js ''lib.js'') [stray_comment]) = [None]"
  using stray_comment_in_output [OF binary_insertion_sort_keeps_elements, of no_pairs]
    binary_insertion_sort_keeps_elements
  by blast

text \<open>
  C2, as amended, for every sort that keeps the elements. An entity of the output that
  comes from a record with a \<^verbatim>\<open>ctx\<close>, or from a record without one whose first tag is
  a typedef or a callback, has as its \<^verbatim>\<open>uid\<close> the result of the UID formatter on the
  file name, a hyphen and the declared name, and that result has the form of an identifier
  in which periods are kept. The example record with the file name \<^verbatim>\<open>lib.js\<close> gives
  the \<^verbatim>\<open>uid\<close> \<^verbatim>\<open>lib.js-foo\<close>, the type \<^verbatim>\<open>method\<close>, the name \<^verbatim>\<open>foo\<close> and
  the params \<^verbatim>\<open>a\<close>, and no \<^verbatim>\<open>notFunction\<close>.
\<close>

theorem entity_uid:
  assumes "keeps_elements engineSort"
  shows "(\<forall>e\<in>set (parser engineSort ignoreCase filename comments).
      \<exists>method\<in>set comments. \<not> ignore method \<and>
        e = build_entity ignoreCase filename
              (build_linkable filename (filter (\<lambda>method. \<not> ignore method) comments)) method \<and>
        (\<forall>c. ctx method = Some c \<longrightarrow>
           e_uid e = Some (formatStringForUID (filename @ js ''-'' @ ctx_string c))) \<and>
        (\<forall>t ts. ctx method = None \<and> tags method = t # ts \<and>
           (tag_type t = js ''typedef'' \<or> tag_type t = js ''callback'') \<longrightarrow>
           e_uid e = Some (formatStringForUID (filename @ js ''-'' @ tag_string t)))) \<and>
   is_slug (formatStringForUID content) \<and>
   map (\<lambda>e. (e_uid e, e_type e, e_name e, e_params e, e_notFunction e))
     (parser engineSort ignoreCase (js ''lib.js'') [example_method]) =
   [(Some (js ''lib.js-foo''), Some (js ''method''), Some (js ''foo''), js ''a'', False)]"
proof (intro conjI ballI)
  fix e
  assume "e \<in> set (parser engineSort ignoreCase filename comments)"
  from parser_entity [OF assms this] obtain m where
    "m \<in> set comments" and "\<not> ignore m" and
    "e = build_entity ignoreCase filename
           (build_linkable filename (filter (\<lambda>method. \<not> ignore method) comments)) m"
    by blast
  then show "\<exists>method\<in>set comments. \<not> ignore method \<and>
        e = build_entity ignoreCase filename
              (build_linkable filename (filter (\<lambda>method. \<not> ignore method) comments)) method \<and>
        (\<forall>c. ctx method = Some c \<longrightarrow>
           e_uid e = Some (formatStringForUID (filename @ js ''-'' @ ctx_string c))) \<and>
        (\<forall>t ts. ctx method = None \<and> tags method = t # ts \<and>
           (tag_type t = js ''typedef'' \<or> tag_type t = js ''callback'') \<longrightarrow>
           e_uid e = Some (formatStringForUID (filename @ js ''-'' @ tag_string t)))"
    using build_entity_uid_ctx build_entity_uid_tag by blast
next
  show "is_slug (formatStringForUID content)"
    by (rule is_slug_formatStringForUID)
  define e where "e = build_entity ignoreCase (js ''lib.js'')
      (build_linkable (js ''lib.js'') [example_method]) example_method"
  have "\<not> ignore example_method" by code_simp
  then have all: "entities ignoreCase (js ''lib.js'') [example_method] = [e]"
    by (simp add: entities_def e_def)
  have "\<not> e_empty e" unfolding e_def by code_simp
  with all have "filter (\<lambda>method. \<not> e_empty method)
      (entities ignoreCase (js ''lib.js'') [example_method]) = [e]"
    by simp
  from parser_single [OF assms this]
  have out: "parser engineSort ignoreCase (js ''lib.js'') [example_method] = [e]" .
  have "(e_uid e, e_type e, e_name e, e_params e, e_notFunction e) =
      (Some (js ''lib.js-foo''), Some (js ''method''), Some (js ''foo''), js ''a'', False)"
    unfolding e_def by code_simp
  then show "map (\<lambda>e. (e_uid e, e_type e, e_name e, e_params e, e_notFunction e))
     (parser engineSort ignoreCase (js ''lib.js'') [example_method]) =
   [(Some (js ''lib.js-foo''), Some (js ''method''), Some (js ''foo''), js ''a'', False)]"
    by (simp add: out)
qed

theorem entity_uid_witness:
  "keeps_elements (binary_insertion_sort :: (entity \<Rightarrow> entity \<Rightarrow> int) \<Rightarrow> entity list \<Rightarrow> entity list) \<and>
   (\<exists>e. e \<in> set (parser binary_insertion_sort no_pairs (js ''lib.js'') [example_method]) \<and>
      e_uid e = Some (formatStringForUID (js ''lib.js'' @ js ''-'' @ js ''foo''))) \<and>
   formatStringForUID (js ''lib.js'' @ js ''-'' @ js ''foo'') = js ''lib.js-foo''"
proof -
  have "parser binary_insertion_sort no_pairs (js ''lib.js'') [example_method] \<noteq> []"
    by code_simp
  then obtain e where
    e: "e \<in> set (parser binary_insertion_sort no_pairs (js ''lib.js'') [example_method])"
    by (cases "parser binary_insertion_sort no_pairs (js ''lib.js'') [example_method]") auto
  have c: "ctx example_method = Some \<lparr>ctx_type = js ''method'', ctx_string = js ''foo''\<rparr>"
    by (simp add: example_method_def a_comment_def)
  from entity_uid [OF binary_insertion_sort_keeps_elements,
      of no_pairs "js ''lib.js''" "[example_method]" "[]"] e c
  have "e_uid e = Some (formatStringForUID (js ''lib.js'' @ js ''-'' @ js ''foo''))"
    by fastforce
  moreover have "formatStringForUID (js ''lib.js'' @ js ''-'' @ js ''foo'') = js ''lib.js-foo''"
    by code_simp
  ultimately show ?thesis using e binary_insertion_sort_keeps_elements by blast
qed

theorem example_uid_keeps_period:
  "map e_uid (parser binary_insertion_sort no_pairs (js ''lib.js'') [example_method]) \<noteq>
   [Some (js ''lib-js-foo'')]"
  by code_simp

text \<open>
  C7, as amended. Unless the record has no \<^verbatim>\<open>ctx\<close> and a typedef as its first tag,
  the string \<^verbatim>\<open>params\<close> of its entity is made of the \<^verbatim>\<open>param\<close> tags whose name has
  no period, each name without its square brackets and wrapped in brackets when the tag is
  optional, joined with a comma and a space, then with bracket, comma, space, bracket
  replaced by comma, space at every place, and then with the first comma, space, bracket
  replaced by bracket, comma, space. The group of \<^verbatim>\<open>param\<close> tags keeps the dotted
  names.
\<close>

theorem params_display_string:
  "(ctx method \<noteq> None \<or> \<not> (\<exists>t ts. tags method = t # ts \<and> tag_type t = js ''typedef'') \<longrightarrow>
      e_params (build_entity ignoreCase filename linkableObjects method) =
        replace_first (js '', ['') (js ''[, '')
          (replace_all [js ''], [''] (js '', '')
             (join (js '', '')
                (map (\<lambda>tag. if tag_optional tag
                        then js ''['' @ filter (\<lambda>c. c \<noteq> cu CHR ''['' \<and> c \<noteq> cu CHR '']'') (tag_name tag)
                               @ js '']''
                        else filter (\<lambda>c. c \<noteq> cu CHR ''['' \<and> c \<noteq> cu CHR '']'') (tag_name tag))
                   (filter (\<lambda>tag. tag_type tag = js ''param'' \<and> cu CHR ''.'' \<notin> set (tag_name tag))
                      (tags method)))))) \<and>
   map pd_name (tg_param (e_tags (build_entity ignoreCase filename linkableObjects method))) =
     map (\<lambda>tag. filter (\<lambda>c. c \<noteq> cu CHR ''['' \<and> c \<noteq> cu CHR '']'') (tag_name tag))
       (filter (\<lambda>tag. tag_type tag = js ''param'') (tags method))"
proof (intro conjI impI)
  assume "ctx method \<noteq> None \<or> \<not> (\<exists>t ts. tags method = t # ts \<and> tag_type t = js ''typedef'')"
  then have "e_params (build_entity ignoreCase filename linkableObjects method) =
      params_string method"
    by (auto simp: build_entity_def Let_def isCallbackOrTypedef_def split: option.splits list.splits)
  then show "e_params (build_entity ignoreCase filename linkableObjects method) =
        replace_first (js '', ['') (js ''[, '')
          (replace_all [js ''], [''] (js '', '')
             (join (js '', '')
                (map (\<lambda>tag. if tag_optional tag
                        then js ''['' @ filter (\<lambda>c. c \<noteq> cu CHR ''['' \<and> c \<noteq> cu CHR '']'') (tag_name tag)
                               @ js '']''
                        else filter (\<lambda>c. c \<noteq> cu CHR ''['' \<and> c \<noteq> cu CHR '']'') (tag_name tag))
                   (filter (\<lambda>tag. tag_type tag = js ''param'' \<and> cu CHR ''.'' \<notin> set (tag_name tag))
                      (tags method)))))"
    by (simp add: params_string_def param_names_def formatStringForParam_filter cong: if_cong)
next
  show "map pd_name (tg_param (e_tags (build_entity ignoreCase filename linkableObjects method))) =
     map (\<lambda>tag. filter (\<lambda>c. c \<noteq> cu CHR ''['' \<and> c \<noteq> cu CHR '']'') (tag_name tag))
       (filter (\<lambda>tag. tag_type tag = js ''param'') (tags method))"
    by (simp add: build_entity_def Let_def tag_groups_of_def param_doc_of_def
        formatStringForParam_filter comp_def split: option.splits list.splits)
qed

theorem params_display_string_witness:
  "ctx dotted_params \<noteq> None \<and>
   e_params (build_entity no_pairs (js ''lib.js'') Map.empty dotted_params) = js ''options[, done]'' \<and>
   map pd_name (tg_param (e_tags (build_entity no_pairs (js ''lib.js'') Map.empty dotted_params))) =
     [js ''options'', js ''options.size'', js ''done'']"
proof -
  have c: "ctx dotted_params \<noteq> None"
    by (simp add: dotted_params_def a_comment_def)
  have "replace_first (js '', ['') (js ''[, '')
          (replace_all [js ''], [''] (js '', '')
             (join (js '', '')
                (map (\<lambda>tag. if tag_optional tag
                        then js ''['' @ filter (\<lambda>c. c \<noteq> cu CHR ''['' \<and> c \<noteq> cu CHR '']'') (tag_name tag)
                               @ js '']''
                        else filter (\<lambda>c. c \<noteq> cu CHR ''['' \<and> c \<noteq> cu CHR '']'') (tag_name tag))
                   (filter (\<lambda>tag. tag_type tag = js ''param'' \<and> cu CHR ''.'' \<notin> set (tag_name tag))
                      (tags dotted_params))))) = js ''options[, done]''"
    by code_simp
  moreover have "map (\<lambda>tag. filter (\<lambda>c. c \<noteq> cu CHR ''['' \<and> c \<noteq> cu CHR '']'') (tag_name tag))
       (filter (\<lambda>tag. tag_type tag = js ''param'') (tags dotted_params)) =
     [js ''options'', js ''options.size'', js ''done'']"
    by code_simp
  ultimately show ?thesis
    using params_display_string [of dotted_params no_pairs "js ''lib.js''" Map.empty] c
    by simp
qed

theorem second_optional_not_moved:
  "map e_params (parser binary_insertion_sort no_pairs (js ''lib.js'') [four_params]) \<noteq>
   [claimed_params_string four_params]"
  by code_simp

section \<open>Properties of the link formatter\<close>

lemma digit_unit: "k < 10 \<Longrightarrow> unat (cu CHR ''0'' + of_nat k :: code_unit) = 48 + k"
  by (simp add: cu_def unat_word_ariths unat_of_nat)

lemma decimal_digits: "d \<in> set (decimal n) \<Longrightarrow> 48 \<le> unat d \<and> unat d \<le> 57"
proof (induction n arbitrary: d rule: decimal.induct)
  case (1 n)
  show ?case
  proof (cases "n < 10")
    case True
    with 1(2) have "d = cu CHR ''0'' + of_nat n"
      by (simp add: decimal.simps [of n])
    with True digit_unit [of n] show ?thesis by simp
  next
    case False
    with 1(2) have "d \<in> set (decimal (n div 10)) \<or> d = cu CHR ''0'' + of_nat (n mod 10)"
      by (auto simp: decimal.simps [of n])
    then show ?thesis
    proof
      assume "d \<in> set (decimal (n div 10))"
      with 1(1) False show ?thesis by simp
    next
      assume "d = cu CHR ''0'' + of_nat (n mod 10)"
      with digit_unit [of "n mod 10"] show ?thesis by simp
    qed
  qed
qed

lemma decimal_not_markup:
  "cu CHR ''<'' \<notin> set (decimal n) \<and> cu CHR ''>'' \<notin> set (decimal n) \<and>
   cu CHR ''&'' \<notin> set (decimal n)"
  using decimal_digits [of "cu CHR ''<''" n] decimal_digits [of "cu CHR ''>''" n]
    decimal_digits [of "cu CHR ''&''" n]
  by (auto simp: cu_def)

lemma reference_no_markup:
  "cu CHR ''<'' \<notin> set (reference n) \<and> cu CHR ''>'' \<notin> set (reference n)"
  using decimal_not_markup [of n] by (simp add: reference_def js_def cu_def)

lemma reference_ampersand:
  assumes "i < length (reference n)" and "reference n ! i = cu CHR ''&''"
  shows "i = 0"
proof (rule ccontr)
  assume "i \<noteq> 0"
  then obtain k where k: "i = Suc k" by (cases i) auto
  have split: "reference n = cu CHR ''&'' # (js ''#'' @ decimal n @ js '';'')"
    by (simp add: reference_def js_def)
  from assms(1) k have "k < length (js ''#'' @ decimal n @ js '';'')"
    by (simp add: split)
  then have "(js ''#'' @ decimal n @ js '';'') ! k \<in> set (js ''#'' @ decimal n @ js '';'')"
    by (rule nth_mem)
  with assms(2) k have "cu CHR ''&'' \<in> set (js ''#'' @ decimal n @ js '';'')"
    by (simp add: split)
  with decimal_not_markup [of n] show False by (simp add: js_def cu_def)
qed

lemma no_raw_markup_plain:
  assumes "no_raw_markup rest" and "c \<noteq> cu CHR ''<''" and "c \<noteq> cu CHR ''>''" and "c \<noteq> cu CHR ''&''"
  shows "no_raw_markup (c # rest)"
  unfolding no_raw_markup_def
proof (intro conjI allI impI)
  show "cu CHR ''<'' \<notin> set (c # rest)" "cu CHR ''>'' \<notin> set (c # rest)"
    using assms by (auto simp: no_raw_markup_def)
next
  fix i
  assume i: "i < length (c # rest)" and amp: "(c # rest) ! i = cu CHR ''&''"
  with assms(4) obtain k where k: "i = Suc k" by (cases i) auto
  with i amp assms(1) show "\<exists>n. prefix (reference n) (drop i (c # rest))"
    by (simp add: no_raw_markup_def)
qed

lemma no_raw_markup_reference:
  assumes "no_raw_markup rest"
  shows "no_raw_markup (reference n @ rest)"
  unfolding no_raw_markup_def
proof (intro conjI allI impI)
  show "cu CHR ''<'' \<notin> set (reference n @ rest)" "cu CHR ''>'' \<notin> set (reference n @ rest)"
    using assms reference_no_markup [of n] by (auto simp: no_raw_markup_def)
  fix i
  assume i: "i < length (reference n @ rest)" and amp: "(reference n @ rest) ! i = cu CHR ''&''"
  show "\<exists>m. prefix (reference m) (drop i (reference n @ rest))"
  proof (cases "i < length (reference n)")
    case True
    with amp have "reference n ! i = cu CHR ''&''" by (simp add: nth_append)
    with True have "i = 0" by (rule reference_ampersand)
    then have "prefix (reference n) (drop i (reference n @ rest))" by simp
    then show ?thesis by blast
  next
    case False
    with i amp have "i - length (reference n) < length rest"
      and "rest ! (i - length (reference n)) = cu CHR ''&''"
      by (simp_all add: nth_append)
    with assms obtain m where
      "prefix (reference m) (drop (i - length (reference n)) rest)"
      by (auto simp: no_raw_markup_def)
    moreover from False have "drop i (reference n @ rest) = drop (i - length (reference n)) rest"
      by simp
    ultimately show ?thesis by auto
  qed
qed

lemma no_raw_markup_escape: "no_raw_markup (concat (map (escape_unit ignoreCase) s))"
proof (induction s)
  case Nil
  then show ?case by (simp add: no_raw_markup_def)
next
  case (Cons c s)
  show ?case
  proof (cases "escaped ignoreCase c")
    case True
    with no_raw_markup_reference [OF Cons, of "unat c"] show ?thesis
      by (simp add: escape_unit_def reference_def)
  next
    case False
    then have "c \<noteq> cu CHR ''<''" "c \<noteq> cu CHR ''>''" "c \<noteq> cu CHR ''&''"
      by (auto simp: escaped_def)
    from no_raw_markup_plain [OF Cons this] False show ?thesis
      by (simp add: escape_unit_def)
  qed
qed

lemma link_branch:
  "linkableObjects (formatStringForParam content) = Some uid \<Longrightarrow> uid \<noteq> [] \<Longrightarrow>
   formatStringWithLinkable ignoreCase content linkableObjects =
     js ''<a href=\"#'' @ uid @ js ''\">'' @ formatStringForParam content @ js ''</a>''"
  by (simp add: formatStringWithLinkable_def formatStringForParam_def get_property_def)

lemma escape_branch:
  "\<not> truthy (get_property linkableObjects (formatStringForParam content)) \<Longrightarrow>
   formatStringWithLinkable ignoreCase content linkableObjects =
     concat (map (escape_unit ignoreCase) (formatStringForParam content))"
  by (simp add: formatStringWithLinkable_def formatStringForParam_def)

text \<open>
  C3, as amended. Take a type string whose form without square brackets is not the name of a
  member that every object inherits. The formatter returns the hyperlink to the mapped
  identifier when the index maps that form to an identifier that is not empty; in every
  other case it returns the escaped literal, which has no \<^verbatim>\<open><\<close> and no \<^verbatim>\<open>>\<close>
  and in which a numeric character reference starts at every \<^verbatim>\<open>&\<close>.
\<close>

theorem link_or_escaped_literal:
  fixes content :: jsstring
  defines "string \<equiv> filter (\<lambda>c. c \<noteq> cu CHR ''['' \<and> c \<noteq> cu CHR '']'') content"
  assumes "object_prototype string = None"
  shows "(\<forall>uid. linkableObjects string = Some uid \<and> uid \<noteq> [] \<longrightarrow>
            formatStringWithLinkable ignoreCase content linkableObjects =
              js ''<a href=\"#'' @ uid @ js ''\">'' @ string @ js ''</a>'') \<and>
         (linkableObjects string = None \<or> linkableObjects string = Some [] \<longrightarrow>
            formatStringWithLinkable ignoreCase content linkableObjects =
              concat (map (escape_unit ignoreCase) string) \<and>
            no_raw_markup (formatStringWithLinkable ignoreCase content linkableObjects))"
proof (intro conjI allI impI)
  have string: "string = formatStringForParam content"
    by (simp add: string_def formatStringForParam_filter)
  {
    fix uid
    assume "linkableObjects string = Some uid \<and> uid \<noteq> []"
    then show "formatStringWithLinkable ignoreCase content linkableObjects =
        js ''<a href=\"#'' @ uid @ js ''\">'' @ string @ js ''</a>''"
      unfolding string by (simp add: link_branch)
  }
  assume "linkableObjects string = None \<or> linkableObjects string = Some []"
  with assms(2) have "\<not> truthy (get_property linkableObjects (formatStringForParam content))"
    unfolding string by (auto simp: get_property_def)
  then have literal: "formatStringWithLinkable ignoreCase content linkableObjects =
      concat (map (escape_unit ignoreCase) (formatStringForParam content))"
    by (rule escape_branch)
  then show "formatStringWithLinkable ignoreCase content linkableObjects =
      concat (map (escape_unit ignoreCase) string)"
    by (simp add: string)
  show "no_raw_markup (formatStringWithLinkable ignoreCase content linkableObjects)"
    unfolding literal by (rule no_raw_markup_escape)
qed

theorem link_or_escaped_literal_witness:
  "object_prototype (js ''Options'') = None \<and>
   formatStringWithLinkable no_pairs (js ''[Options]'') [js ''Options'' \<mapsto> js ''lib.js-options''] =
     js ''<a href=\"#lib.js-options\">Options</a>'' \<and>
   formatStringWithLinkable no_pairs (js ''[Options]'') Map.empty = js ''Options'' \<and>
   no_raw_markup (formatStringWithLinkable no_pairs (js ''[Options]'') Map.empty)"
proof -
  have string: "filter (\<lambda>c. c \<noteq> cu CHR ''['' \<and> c \<noteq> cu CHR '']'') (js ''[Options]'') = js ''Options''"
    by code_simp
  have proto: "object_prototype (js ''Options'') = None"
    by code_simp
  have literal: "concat (map (escape_unit no_pairs) (js ''Options'')) = js ''Options''"
    by code_simp
  have append: "js ''<a href=\"#'' @ js ''lib.js-options'' @ js ''\">'' @ js ''Options'' @ js ''</a>'' =
      js ''<a href=\"#lib.js-options\">Options</a>''"
    by (simp add: js_def)
  have lookup: "[js ''Options'' \<mapsto> js ''lib.js-options''] (js ''Options'') = Some (js ''lib.js-options'') \<and>
      js ''lib.js-options'' \<noteq> []"
    by (simp add: js_def)
  have "object_prototype
      (filter (\<lambda>c. c \<noteq> cu CHR ''['' \<and> c \<noteq> cu CHR '']'') (js ''[Options]'')) = None"
    by (simp only: string proto)
  note both = link_or_escaped_literal [OF this, unfolded string]
  from both [of "[js ''Options'' \<mapsto> js ''lib.js-options'']" no_pairs] lookup
  have linked: "formatStringWithLinkable no_pairs (js ''[Options]'')
      [js ''Options'' \<mapsto> js ''lib.js-options''] =
      js ''<a href=\"#'' @ js ''lib.js-options'' @ js ''\">'' @ js ''Options'' @ js ''</a>''"
    by blast
  have "Map.empty (js ''Options'') = (None :: jsstring option)"
    by simp
  with both [of Map.empty no_pairs]
  have escaped: "formatStringWithLinkable no_pairs (js ''[Options]'') Map.empty =
      concat (map (escape_unit no_pairs) (js ''Options''))"
    and raw: "no_raw_markup (formatStringWithLinkable no_pairs (js ''[Options]'') Map.empty)"
    by blast+
  from linked have "formatStringWithLinkable no_pairs (js ''[Options]'')
      [js ''Options'' \<mapsto> js ''lib.js-options''] = js ''<a href=\"#lib.js-options\">Options</a>''"
    by (simp only: append)
  moreover from escaped
  have "formatStringWithLinkable no_pairs (js ''[Options]'') Map.empty = js ''Options''"
    by (simp only: literal)
  ultimately show ?thesis using proto raw by blast
qed

theorem empty_uid_not_linked:
  "settings_index settings_name = Some [] \<and>
   formatStringWithLinkable no_pairs settings_name settings_index = js ''&#35373;&#23450;''"
proof -
  have idx: "settings_index settings_name = Some []"
    by code_simp
  have stripped: "formatStringForParam settings_name = settings_name"
    by code_simp
  have "\<not> truthy (get_property settings_index (formatStringForParam settings_name))"
    by (simp add: stripped get_property_def idx)
  then have "formatStringWithLinkable no_pairs settings_name settings_index =
      concat (map (escape_unit no_pairs) settings_name)"
    using escape_branch [of settings_index settings_name no_pairs] by (simp add: stripped)
  also have "\<dots> = js ''&#35373;&#23450;''"
    by (simp add: settings_name_def escape_unit_def escaped_def decimal.simps js_def cu_def)
  finally show ?thesis using idx by simp
qed

text \<open>
  C9, as amended. When the formatter takes its escaping branch, every code unit from U+00A0
  to U+9999 and every \<^verbatim>\<open><\<close>, \<^verbatim>\<open>>\<close> and \<^verbatim>\<open>&\<close> of the string without square brackets
  is replaced by the numeric character reference of its code; a code unit above U+9999 is
  replaced only where ignoring case pairs it with the class; every other code unit, in ASCII
  or from U+0080 to U+009F, stays as it is.
\<close>

theorem escaping_branch:
  fixes content :: jsstring
  defines "string \<equiv> filter (\<lambda>c. c \<noteq> cu CHR ''['' \<and> c \<noteq> cu CHR '']'') content"
  assumes "\<not> truthy (get_property linkableObjects string)"
  shows "formatStringWithLinkable ignoreCase content linkableObjects =
           concat (map (\<lambda>i. if (0xA0 \<le> i \<and> i \<le> 0x9999) \<or> i = cu CHR ''<'' \<or> i = cu CHR ''>'' \<or>
                                i = cu CHR ''&'' \<or> (0x9999 < i \<and> ignoreCase i)
                             then js ''&#'' @ decimal (unat i) @ js '';'' else [i]) string)"
proof -
  have string: "string = formatStringForParam content"
    by (simp add: string_def formatStringForParam_filter)
  have "escape_unit ignoreCase =
      (\<lambda>i. if (0xA0 \<le> i \<and> i \<le> 0x9999) \<or> i = cu CHR ''<'' \<or> i = cu CHR ''>'' \<or>
               i = cu CHR ''&'' \<or> (0x9999 < i \<and> ignoreCase i)
            then js ''&#'' @ decimal (unat i) @ js '';'' else [i])"
    by (rule ext) (simp add: escape_unit_def escaped_def)
  with escape_branch [of linkableObjects content ignoreCase] assms(2) show ?thesis
    unfolding string by simp
qed

theorem escaping_branch_witness:
  "\<not> truthy (get_property Map.empty (js ''a<b>&'' @ [0xE9, 0x4E2D])) \<and>
   formatStringWithLinkable no_pairs (js ''[a<b>&'' @ [0xE9, 0x4E2D]) Map.empty =
     js ''a&#60;b&#62;&#38;&#233;&#20013;''"
proof -
  have string: "filter (\<lambda>c. c \<noteq> cu CHR ''['' \<and> c \<noteq> cu CHR '']'') (js ''[a<b>&'' @ [0xE9, 0x4E2D]) =
      js ''a<b>&'' @ [0xE9, 0x4E2D]"
    by code_simp
  have falsy: "\<not> truthy (get_property Map.empty (js ''a<b>&'' @ [0xE9, 0x4E2D]))"
    by code_simp
  have evaluated: "concat (map (\<lambda>i. if (0xA0 \<le> i \<and> i \<le> 0x9999) \<or> i = cu CHR ''<'' \<or> i = cu CHR ''>'' \<or>
                                i = cu CHR ''&'' \<or> (0x9999 < i \<and> no_pairs i)
                             then js ''&#'' @ decimal (unat i) @ js '';'' else [i])
          (js ''a<b>&'' @ [0xE9, 0x4E2D])) = js ''a&#60;b&#62;&#38;&#233;&#20013;''"
    by (simp add: decimal.simps js_def cu_def no_pairs_def)
  have "\<not> truthy (get_property Map.empty
      (filter (\<lambda>c. c \<noteq> cu CHR ''['' \<and> c \<noteq> cu CHR '']'') (js ''[a<b>&'' @ [0xE9, 0x4E2D])))"
    by (simp only: string falsy not_False_eq_True)
  from escaping_branch [OF this, of no_pairs, unfolded string] falsy show ?thesis
    by (simp only: evaluated simp_thms)
qed

theorem controls_and_high_units_not_escaped:
  "formatStringWithLinkable no_pairs [0x85, 0xAC00, 0xD83D, 0xDE00] Map.empty =
   [0x85, 0xAC00, 0xD83D, 0xDE00]"
  by code_simp

section \<open>The index and the references to it\<close>

lemma build_linkable_kept:
  "foldl (register filename) linkableObjects (filter (\<lambda>method. \<not> ignore method) comments) =
   foldl (register_kept filename) linkableObjects comments"
  by (induction comments arbitrary: linkableObjects) (simp_all add: register_kept_def)

lemma register_kept_undeclared:
  "declared_name method = None \<Longrightarrow> register_kept filename linkableObjects method = linkableObjects"
  by (auto simp: declared_name_def register_kept_def register_def isCallbackOrTypedef_def
      split: list.splits if_splits)

lemma register_kept_declared:
  "declared_name method = Some n \<Longrightarrow>
   \<exists>u. \<forall>linkableObjects.
     register_kept filename linkableObjects method = set_property linkableObjects n u"
  by (auto simp: declared_name_def register_kept_def register_def isCallbackOrTypedef_def
      split: list.splits if_splits)

lemma set_property_twist:
  "n \<noteq> m \<Longrightarrow>
   set_property (set_property obj n u) m v = set_property (set_property obj m v) n u"
  by (auto simp: set_property_def fun_upd_twist)

lemma register_kept_commute:
  assumes "declared_name r = None \<or> declared_name d \<noteq> declared_name r"
  shows "register_kept filename (register_kept filename linkableObjects r) d =
         register_kept filename (register_kept filename linkableObjects d) r"
proof (cases "declared_name r")
  case None
  then show ?thesis by (simp add: register_kept_undeclared)
next
  case r: (Some n)
  show ?thesis
  proof (cases "declared_name d")
    case None
    then show ?thesis by (simp add: register_kept_undeclared)
  next
    case d: (Some m)
    from assms r d have "n \<noteq> m" by auto
    moreover from register_kept_declared [OF r, of filename] obtain u where
      "\<And>obj. register_kept filename obj r = set_property obj n u" by blast
    moreover from register_kept_declared [OF d, of filename] obtain v where
      "\<And>obj. register_kept filename obj d = set_property obj m v" by blast
    ultimately show ?thesis by (simp add: set_property_twist)
  qed
qed

lemma register_kept_move:
  "\<forall>d\<in>set decls. declared_name r = None \<or> declared_name d \<noteq> declared_name r \<Longrightarrow>
   foldl (register_kept filename) (register_kept filename linkableObjects r) decls =
   register_kept filename (foldl (register_kept filename) linkableObjects decls) r"
proof (induction decls arbitrary: linkableObjects)
  case Nil
  then show ?case by simp
next
  case (Cons d decls)
  from Cons.prems have "declared_name r = None \<or> declared_name d \<noteq> declared_name r"
    by auto
  then have "register_kept filename (register_kept filename linkableObjects r) d =
      register_kept filename (register_kept filename linkableObjects d) r"
    by (rule register_kept_commute)
  moreover from Cons.prems
  have "\<forall>d\<in>set decls. declared_name r = None \<or> declared_name d \<noteq> declared_name r"
    by auto
  ultimately show ?case using Cons.IH by simp
qed

lemma build_linkable_move:
  assumes "\<forall>d\<in>set decls. declared_name r = None \<or> declared_name d \<noteq> declared_name r"
  shows "build_linkable filename (filter (\<lambda>method. \<not> ignore method) (before @ r # decls @ after)) =
         build_linkable filename (filter (\<lambda>method. \<not> ignore method) (before @ decls @ r # after))"
  unfolding build_linkable_def build_linkable_kept
  using register_kept_move [OF assms] by simp

text \<open>
  C5. The index is built from all records that are not ignored before any entity is built.
  Take a record \<open>r\<close> and a block of records none of which declares the name that \<open>r\<close>
  declares, if it declares one. Whether \<open>r\<close> stands before the block or after it, every
  record of the file gets its entity from the same index, so a reference resolves to the
  same string before and after the declaration it names.
\<close>

theorem references_resolve_alike:
  assumes "\<forall>d\<in>set decls. declared_name r = None \<or> declared_name d \<noteq> declared_name r"
  shows "entities ignoreCase filename (before @ r # decls @ after) =
           map (build_entity ignoreCase filename
                  (build_linkable filename
                     (filter (\<lambda>method. \<not> ignore method) (before @ decls @ r # after))))
             (filter (\<lambda>method. \<not> ignore method) (before @ r # decls @ after)) \<and>
         entities ignoreCase filename (before @ decls @ r # after) =
           map (build_entity ignoreCase filename
                  (build_linkable filename
                     (filter (\<lambda>method. \<not> ignore method) (before @ decls @ r # after))))
             (filter (\<lambda>method. \<not> ignore method) (before @ decls @ r # after))"
  using build_linkable_move [OF assms, of filename before after]
  by (simp add: entities_def Let_def)

theorem references_resolve_alike_witness:
  "declared_name options_user = None \<and>
   (entities no_pairs (js ''lib.js'') ([] @ options_user # [options_typedef] @ []) =
      map (build_entity no_pairs (js ''lib.js'')
             (build_linkable (js ''lib.js'')
                (filter (\<lambda>method. \<not> ignore method) ([] @ [options_typedef] @ options_user # []))))
        (filter (\<lambda>method. \<not> ignore method) ([] @ options_user # [options_typedef] @ [])) \<and>
    entities no_pairs (js ''lib.js'') ([] @ [options_typedef] @ options_user # []) =
      map (build_entity no_pairs (js ''lib.js'')
             (build_linkable (js ''lib.js'')
                (filter (\<lambda>method. \<not> ignore method) ([] @ [options_typedef] @ options_user # []))))
        (filter (\<lambda>method. \<not> ignore method) ([] @ [options_typedef] @ options_user # []))) \<and>
   map (\<lambda>e. map pd_types (tg_param (e_tags e)))
     (entities no_pairs (js ''lib.js'') [options_user, options_typedef]) =
     [[[js ''<a href=\"#lib.js-options\">Options</a>'']], []] \<and>
   map (\<lambda>e. map pd_types (tg_param (e_tags e)))
     (entities no_pairs (js ''lib.js'') [options_typedef, options_user]) =
     [[], [[js ''<a href=\"#lib.js-options\">Options</a>'']]]"
proof -
  have undeclared: "declared_name options_user = None"
    by code_simp
  then have "\<forall>d\<in>set [options_typedef].
      declared_name options_user = None \<or> declared_name d \<noteq> declared_name options_user"
    by simp
  note alike = references_resolve_alike [OF this, of no_pairs "js ''lib.js''" "[]" "[]"]
  have forward: "map (\<lambda>e. map pd_types (tg_param (e_tags e)))
     (entities no_pairs (js ''lib.js'') [options_user, options_typedef]) =
     [[[js ''<a href=\"#lib.js-options\">Options</a>'']], []]"
    by code_simp
  have backward: "map (\<lambda>e. map pd_types (tg_param (e_tags e)))
     (entities no_pairs (js ''lib.js'') [options_typedef, options_user]) =
     [[], [[js ''<a href=\"#lib.js-options\">Options</a>'']]]"
    by code_simp
  show ?thesis
    by (rule conjI [OF undeclared conjI [OF alike conjI [OF forward backward]]])
qed

lemma dom_set_property: "k \<in> dom obj \<Longrightarrow> k \<in> dom (set_property obj n u)"
  by (auto simp: set_property_def)

lemma dom_register: "k \<in> dom obj \<Longrightarrow> k \<in> dom (register filename obj method)"
  by (auto simp: register_def dom_set_property split: list.splits)

lemma dom_foldl_register:
  "k \<in> dom obj \<Longrightarrow> k \<in> dom (foldl (register filename) obj methods)"
  by (induction methods arbitrary: obj) (simp_all add: dom_register)

lemma registered:
  assumes "method \<in> set methods" and "tags method = t # ts"
    and "tag_type t = js ''typedef'' \<or> tag_type t = js ''callback''"
    and "linkable_name t \<noteq> js ''__proto__''"
  shows "linkable_name t \<in> dom (build_linkable filename methods)"
proof -
  from assms(1) obtain xs ys where split: "methods = xs @ method # ys"
    by (auto simp: in_set_conv_decomp)
  have "linkable_name t \<in> dom (register filename (foldl (register filename) Map.empty xs) method)"
    using assms(2-4) by (auto simp: register_def isCallbackOrTypedef_def set_property_def)
  then show ?thesis
    unfolding build_linkable_def split by (simp add: dom_foldl_register)
qed

lemma entry_origin:
  "foldl (register filename) obj methods k = Some u \<Longrightarrow>
   obj k = Some u \<or>
   (\<exists>method\<in>set methods. \<exists>t ts. tags method = t # ts \<and>
      (tag_type t = js ''typedef'' \<or> tag_type t = js ''callback'') \<and>
      linkable_name t = k \<and> linkable_uid filename t = u)"
proof (induction methods arbitrary: obj)
  case Nil
  then show ?case by simp
next
  case (Cons m methods)
  from Cons.IH [OF Cons.prems [simplified]]
  show ?case
  proof
    assume "register filename obj m k = Some u"
    then show ?thesis
      by (auto simp: register_def isCallbackOrTypedef_def set_property_def
          split: if_splits list.splits)
  next
    assume "\<exists>method\<in>set methods. \<exists>t ts. tags method = t # ts \<and>
      (tag_type t = js ''typedef'' \<or> tag_type t = js ''callback'') \<and>
      linkable_name t = k \<and> linkable_uid filename t = u"
    then show ?thesis by auto
  qed
qed

lemma typedef_entity:
  assumes "ctx method = None" and "tags method = t # ts" and "tag_type t = js ''typedef''"
  shows "e_notFunction (build_entity ignoreCase filename linkableObjects method) \<and>
         e_toBottom (build_entity ignoreCase filename linkableObjects method) \<and>
         e_type (build_entity ignoreCase filename linkableObjects method) = Some (js ''typedef'') \<and>
         e_params (build_entity ignoreCase filename linkableObjects method) = []"
  using assms by (simp add: build_entity_def Let_def isCallbackOrTypedef_def)

lemma ignored_no_entry:
  assumes "build_linkable filename (filter (\<lambda>method. \<not> ignore method) comments) k = Some u"
  shows "\<exists>method\<in>set comments. \<not> ignore method \<and>
           (\<exists>t ts. tags method = t # ts \<and>
              (tag_type t = js ''typedef'' \<or> tag_type t = js ''callback'') \<and>
              linkable_name t = k \<and> linkable_uid filename t = u)"
  using entry_origin [OF assms [unfolded build_linkable_def]] by auto

lemma undeclared_escaped:
  assumes "\<forall>method\<in>set comments. declared_name method \<noteq> Some (formatStringForParam type)"
    and "object_prototype (formatStringForParam type) = None"
  shows "formatStringWithLinkable ignoreCase type
           (build_linkable filename (filter (\<lambda>method. \<not> ignore method) comments)) =
         concat (map (escape_unit ignoreCase) (formatStringForParam type))"
proof -
  have "build_linkable filename (filter (\<lambda>method. \<not> ignore method) comments)
      (formatStringForParam type) = None"
  proof (rule ccontr)
    assume "build_linkable filename (filter (\<lambda>method. \<not> ignore method) comments)
      (formatStringForParam type) \<noteq> None"
    then obtain u where "build_linkable filename (filter (\<lambda>method. \<not> ignore method) comments)
      (formatStringForParam type) = Some u" by auto
    from ignored_no_entry [OF this] obtain m t ts where
      "m \<in> set comments" "\<not> ignore m" "tags m = t # ts"
      "tag_type t = js ''typedef'' \<or> tag_type t = js ''callback''"
      "linkable_name t = formatStringForParam type"
      by blast
    then have "declared_name m = Some (formatStringForParam type)"
      by (auto simp: declared_name_def isCallbackOrTypedef_def)
    with assms(1) \<open>m \<in> set comments\<close> show False by blast
  qed
  with assms(2) have "\<not> truthy (get_property
      (build_linkable filename (filter (\<lambda>method. \<not> ignore method) comments))
      (formatStringForParam type))"
    by (simp add: get_property_def)
  then show ?thesis by (rule escape_branch)
qed

text \<open>
  C6, at the input where the code leaves it, for every sort that keeps the elements. The
  typedef with the name \<^verbatim>\<open>__proto__\<close> has the entity that C6 describes, but line 117
  assigns to \<^verbatim>\<open>__proto__\<close> of an ordinary object, which stores nothing: the index has
  no such key, and a reference to the type is linked to the text of
  \<^verbatim>\<open>Object.prototype\<close>, not to the identifier of the typedef.
\<close>

theorem proto_typedef_not_registered:
  assumes "keeps_elements engineSort"
  shows "map (\<lambda>e. (e_type e, e_notFunction e, e_toBottom e, e_params e))
     (parser engineSort ignoreCase (js ''lib.js'') [proto_typedef]) =
     [(Some (js ''typedef''), True, True, [])] \<and>
   declared_name proto_typedef = Some (js ''__proto__'') \<and>
   build_linkable (js ''lib.js'') [proto_typedef] (js ''__proto__'') = None \<and>
   formatStringWithLinkable ignoreCase (js ''__proto__'')
     (build_linkable (js ''lib.js'') [proto_typedef]) =
     js ''<a href=\"#[object Object]\">__proto__</a>''"
proof -
  define e where "e = build_entity ignoreCase (js ''lib.js'')
      (build_linkable (js ''lib.js'') [proto_typedef]) proto_typedef"
  have "\<not> ignore proto_typedef" by code_simp
  then have all: "entities ignoreCase (js ''lib.js'') [proto_typedef] = [e]"
    by (simp add: entities_def e_def)
  have "\<not> e_empty e" unfolding e_def by code_simp
  with all have "filter (\<lambda>method. \<not> e_empty method)
      (entities ignoreCase (js ''lib.js'') [proto_typedef]) = [e]"
    by simp
  from parser_single [OF assms this]
  have out: "parser engineSort ignoreCase (js ''lib.js'') [proto_typedef] = [e]" .
  have "(e_type e, e_notFunction e, e_toBottom e, e_params e) =
      (Some (js ''typedef''), True, True, [])"
    unfolding e_def by code_simp
  then have first: "map (\<lambda>e. (e_type e, e_notFunction e, e_toBottom e, e_params e))
     (parser engineSort ignoreCase (js ''lib.js'') [proto_typedef]) =
     [(Some (js ''typedef''), True, True, [])]"
    by (simp add: out)
  have second: "declared_name proto_typedef = Some (js ''__proto__'')"
    by code_simp
  have third: "build_linkable (js ''lib.js'') [proto_typedef] (js ''__proto__'') = None"
    by code_simp
  have fourth: "formatStringWithLinkable ignoreCase (js ''__proto__'')
     (build_linkable (js ''lib.js'') [proto_typedef]) =
     js ''<a href=\"#[object Object]\">__proto__</a>''"
    by code_simp
  show ?thesis
    by (rule conjI [OF first conjI [OF second conjI [OF third fourth]]])
qed

theorem proto_typedef_not_registered_witness:
  "keeps_elements (binary_insertion_sort :: (entity \<Rightarrow> entity \<Rightarrow> int) \<Rightarrow> entity list \<Rightarrow> entity list) \<and>
   map (\<lambda>e. (e_type e, e_notFunction e, e_toBottom e, e_params e))
     (parser binary_insertion_sort no_pairs (js ''lib.js'') [proto_typedef]) =
     [(Some (js ''typedef''), True, True, [])] \<and>
   declared_name proto_typedef = Some (js ''__proto__'') \<and>
   build_linkable (js ''lib.js'') [proto_typedef] (js ''__proto__'') = None \<and>
   formatStringWithLinkable no_pairs (js ''__proto__'')
     (build_linkable (js ''lib.js'') [proto_typedef]) =
     js ''<a href=\"#[object Object]\">__proto__</a>''"
  using proto_typedef_not_registered [OF binary_insertion_sort_keeps_elements, of no_pairs]
    binary_insertion_sort_keeps_elements
  by blast



end
